theory Spec2Isabelle
  imports Main "HOL-Library.Word"
begin

section \<open>JavaScript strings\<close>

text \<open>
  The scanner of \<^verbatim>\<open>src/lib/security.ts\<close> works on JavaScript strings, which are sequences
  of 16-bit UTF-16 code units. A content string is therefore a list of 16-bit words; ASCII
  literals of the source are written with \<open>js\<close>.
\<close>

type_synonym cu = "16 word"
type_synonym jsstring = "cu list"

definition js :: "string \<Rightarrow> jsstring" where
  "js s = map (\<lambda>c. of_nat (of_char c)) s"

text \<open>The backslash, which cannot be written inside a string literal.\<close>

definition BS :: char where
  "BS = CHR 0x5C"

definition is_high_surrogate :: "cu \<Rightarrow> bool" where
  "is_high_surrogate c = (0xD800 \<le> c \<and> c \<le> 0xDBFF)"

definition is_low_surrogate :: "cu \<Rightarrow> bool" where
  "is_low_surrogate c = (0xDC00 \<le> c \<and> c \<le> 0xDFFF)"

text \<open>
  \<^verbatim>\<open>new Blob([htmlContent]).size\<close>: the number of bytes of the UTF-8 encoding of the string.
  A code unit below U+0080 takes one byte, one below U+0800 two, a surrogate pair four, and
  every other code unit three (a lone surrogate is encoded as U+FFFD).
\<close>

fun blob_size :: "jsstring \<Rightarrow> nat" where
  "blob_size [] = 0"
| "blob_size [c] = (if c < 0x80 then 1 else if c < 0x800 then 2 else 3)"
| "blob_size (c # d # t) =
     (if c < 0x80 then 1 + blob_size (d # t)
      else if c < 0x800 then 2 + blob_size (d # t)
      else if is_high_surrogate c \<and> is_low_surrogate d then 4 + blob_size t
      else 3 + blob_size (d # t))"

text \<open>White space as the regular expression escape \<^verbatim>\<open>\s\<close> sees it.\<close>

definition is_space :: "cu \<Rightarrow> bool" where
  "is_space c = (c = 0x09 \<or> c = 0x0A \<or> c = 0x0B \<or> c = 0x0C \<or> c = 0x0D \<or> c = 0x20 \<or>
     c = 0xA0 \<or> c = 0x1680 \<or> (0x2000 \<le> c \<and> c \<le> 0x200A) \<or> c = 0x2028 \<or> c = 0x2029 \<or>
     c = 0x202F \<or> c = 0x205F \<or> c = 0x3000 \<or> c = 0xFEFF)"

definition is_upper :: "cu \<Rightarrow> bool" where
  "is_upper c = (0x41 \<le> c \<and> c \<le> 0x5A)"

definition is_lower :: "cu \<Rightarrow> bool" where
  "is_lower c = (0x61 \<le> c \<and> c \<le> 0x7A)"

definition is_digit :: "cu \<Rightarrow> bool" where
  "is_digit c = (0x30 \<le> c \<and> c \<le> 0x39)"

definition is_word :: "cu \<Rightarrow> bool" where
  "is_word c = (is_lower c \<or> is_upper c \<or> is_digit c \<or> c = 0x5F)"

definition to_upper :: "cu \<Rightarrow> cu" where
  "to_upper c = (if is_lower c then c - 0x20 else c)"

definition to_lower :: "cu \<Rightarrow> cu" where
  "to_lower c = (if is_upper c then c + 0x20 else c)"

text \<open>
  \<^verbatim>\<open>toLowerCase\<close> is only applied to text captured by \<^verbatim>\<open>[a-zA-Z0-9/-]\<close> classes, where
  it is the ASCII mapping.
\<close>

definition toLowerCase :: "jsstring \<Rightarrow> jsstring" where
  "toLowerCase s = map to_lower s"

fun startsWith :: "jsstring \<Rightarrow> jsstring \<Rightarrow> bool" where
  "startsWith s [] = True"
| "startsWith [] (p # ps) = False"
| "startsWith (c # cs) (p # ps) = (c = p \<and> startsWith cs ps)"

fun includesStr :: "jsstring \<Rightarrow> jsstring \<Rightarrow> bool" where
  "includesStr [] p = (p = [])"
| "includesStr (c # cs) p = (startsWith (c # cs) p \<or> includesStr cs p)"

section \<open>Regular expressions\<close>

text \<open>
  The fragment of JavaScript regular expressions that the file uses: literal characters,
  character classes (ranges, single characters, \<^verbatim>\<open>\s\<close>, \<^verbatim>\<open>\S\<close>, \<^verbatim>\<open>\w\<close>, negation),
  concatenation, alternation, greedy and lazy repetition and capturing groups. Literals and
  range bounds are ASCII, as in every pattern of the file; for these, the case folding of the
  \<^verbatim>\<open>i\<close> flag is the ASCII one on every code unit (a code unit from U+0080 on is never
  folded to an ASCII one).
\<close>

definition canon :: "bool \<Rightarrow> cu \<Rightarrow> cu" where
  "canon ic c = (if ic then to_upper c else c)"

datatype citem = Rng cu cu | One cu | Space | NonSpace | WordC

fun in_item :: "bool \<Rightarrow> citem \<Rightarrow> cu \<Rightarrow> bool" where
  "in_item ic (Rng lo hi) c =
     ((lo \<le> c \<and> c \<le> hi) \<or>
      (ic \<and> ((lo \<le> to_lower c \<and> to_lower c \<le> hi) \<or> (lo \<le> to_upper c \<and> to_upper c \<le> hi))))"
| "in_item ic (One x) c = (canon ic x = canon ic c)"
| "in_item ic Space c = is_space c"
| "in_item ic NonSpace c = (\<not> is_space c)"
| "in_item ic WordC c = is_word c"

datatype regex =
    Eps
  | Chr cu
  | Cls bool "citem list"
  | Seq regex regex
  | Alt regex regex
  | Star bool regex
  | Grp nat regex

text \<open>
  A matcher state is the rest of the input and the captures made so far. \<open>ms ic r st\<close> lists,
  in the order in which a backtracking matcher tries them, the states in which \<open>r\<close> can end
  when started in \<open>st\<close>; \<open>ic\<close> is the \<^verbatim>\<open>i\<close> flag. The first state of the list is the match
  that JavaScript reports. \<open>Star True\<close> is the greedy \<^verbatim>\<open>*\<close>, \<open>Star False\<close> the lazy
  \<^verbatim>\<open>*?\<close>; as in JavaScript, an iteration that consumes nothing is not repeated.
\<close>

type_synonym caps = "(nat \<times> jsstring) list"
type_synonym mstate = "jsstring \<times> caps"

fun ms :: "bool \<Rightarrow> regex \<Rightarrow> mstate \<Rightarrow> mstate list" where
  "ms ic Eps st = [st]"
| "ms ic (Chr x) (s, cs) =
     (case s of [] \<Rightarrow> [] | c # t \<Rightarrow> if canon ic x = canon ic c then [(t, cs)] else [])"
| "ms ic (Cls neg items) (s, cs) =
     (case s of [] \<Rightarrow> []
      | c # t \<Rightarrow> if list_ex (\<lambda>i. in_item ic i c) items \<noteq> neg then [(t, cs)] else [])"
| "ms ic (Seq a b) st = concat (map (ms ic b) (ms ic a st))"
| "ms ic (Alt a b) st = ms ic a st @ ms ic b st"
| "ms ic (Star greedy r) (s, cs) =
     (let more = concat (map (\<lambda>(s', cs'). if length s' < length s
                                              then ms ic (Star greedy r) (s', cs') else [])
                             (ms ic r (s, cs)))
      in if greedy then more @ [(s, cs)] else (s, cs) # more)"
| "ms ic (Grp n r) (s, cs) =
     map (\<lambda>(s', cs'). (s', (n, take (length s - length s') s) # cs')) (ms ic r (s, cs))"

text \<open>\<^verbatim>\<open>r+\<close>, \<^verbatim>\<open>r?\<close>, a sequence of parts and a literal string.\<close>

definition Plus :: "regex \<Rightarrow> regex" where
  "Plus r = Seq r (Star True r)"

definition Opt :: "regex \<Rightarrow> regex" where
  "Opt r = Alt r Eps"

fun Seqs :: "regex list \<Rightarrow> regex" where
  "Seqs [] = Eps"
| "Seqs [r] = r"
| "Seqs (r # rs) = Seq r (Seqs rs)"

definition Lit :: "string \<Rightarrow> regex" where
  "Lit s = Seqs (map Chr (js s))"

text \<open>
  The text of capture group \<open>n\<close>. Every group that the scanner reads is a mandatory part of
  its regular expression, so it is set in every match (lemmas \<open>exec_all_groups\<close>,
  \<open>search_groups\<close> and \<open>fixed_groups\<close> below) and the \<open>None\<close> branch is never taken.
\<close>

definition group :: "nat \<Rightarrow> caps \<Rightarrow> jsstring" where
  "group n cs = (case map_of cs n of Some g \<Rightarrow> g | None \<Rightarrow> [])"

text \<open>
  One \<^verbatim>\<open>exec\<close> from the start of \<open>s\<close>: the leftmost position with a match, and there the
  first match. The result is the matched text, the rest of the input behind it, and the
  captures.
\<close>

fun search :: "bool \<Rightarrow> regex \<Rightarrow> jsstring \<Rightarrow> (jsstring \<times> jsstring \<times> caps) option" where
  "search ic r [] =
     (case ms ic r ([], []) of (s', cs) # _ \<Rightarrow> Some ([], s', cs) | [] \<Rightarrow> None)"
| "search ic r (c # t) =
     (case ms ic r (c # t, []) of
        (s', cs) # _ \<Rightarrow> Some (take (length (c # t) - length s') (c # t), s', cs)
      | [] \<Rightarrow> search ic r t)"

text \<open>
  The loop \<^verbatim>\<open>while ((m = re.exec(s)) !== null)\<close> over a fresh regular expression with the
  \<^verbatim>\<open>g\<close> flag: the successive matches, each searched from the end of the one before. The
  four regular expressions that the scanner iterates start with the literal \<^verbatim>\<open><\<close>, so
  every match consumes input and the \<open>else []\<close> branch is never taken for them
  (lemmas \<open>exec_all_lead\<close> and \<open>fixed_leads\<close> below).
\<close>

fun exec_all :: "bool \<Rightarrow> regex \<Rightarrow> jsstring \<Rightarrow> (jsstring \<times> caps) list" where
  "exec_all ic r [] = []"
| "exec_all ic r (c # t) =
     (case ms ic r (c # t, []) of
        (s', cs) # _ \<Rightarrow>
          if length s' < length (c # t)
          then (take (length (c # t) - length s') (c # t), cs) # exec_all ic r s'
          else []
      | [] \<Rightarrow> exec_all ic r t)"

text \<open>
  \<^verbatim>\<open>s.match(re)\<close> for \<open>re\<close> with the \<^verbatim>\<open>g\<close> flag: the texts of all matches, the empty list
  standing for \<^verbatim>\<open>null\<close>. After an empty match the search resumes one code unit further.
\<close>

fun match_all :: "bool \<Rightarrow> regex \<Rightarrow> jsstring \<Rightarrow> jsstring list" where
  "match_all ic r [] = (case ms ic r ([], []) of _ # _ \<Rightarrow> [[]] | [] \<Rightarrow> [])"
| "match_all ic r (c # t) =
     (case ms ic r (c # t, []) of
        (s', cs) # _ \<Rightarrow>
          if length s' < length (c # t)
          then take (length (c # t) - length s') (c # t) # match_all ic r s'
          else [] # match_all ic r t
      | [] \<Rightarrow> match_all ic r t)"

text \<open>\<^verbatim>\<open>s.replace(re, '')\<close> for \<open>re\<close> with the \<^verbatim>\<open>g\<close> flag: every match is removed.\<close>

fun replace_all :: "bool \<Rightarrow> regex \<Rightarrow> jsstring \<Rightarrow> jsstring" where
  "replace_all ic r [] = []"
| "replace_all ic r (c # t) =
     (case ms ic r (c # t, []) of
        (s', cs) # _ \<Rightarrow>
          if length s' < length (c # t) then replace_all ic r s' else c # replace_all ic r t
      | [] \<Rightarrow> c # replace_all ic r t)"

subsection \<open>RegExp objects\<close>

text \<open>
  The forbidden patterns of a policy are RegExp objects with the flags \<^verbatim>\<open>gi\<close>. Such an
  object carries the mutable property \<^verbatim>\<open>lastIndex\<close>, which \<^verbatim>\<open>test\<close> reads and writes and
  which lives as long as the policy does. The store maps the identity of an object to its
  \<^verbatim>\<open>lastIndex\<close>; two entries of a policy with the same \<open>oid\<close> are the same object.
\<close>

type_synonym store = "nat \<Rightarrow> nat"

record RegExp =
  oid :: nat
  source :: string
  pattern :: regex

text \<open>
  \<^verbatim>\<open>re.test(s)\<close> with the \<^verbatim>\<open>g\<close> flag: the search starts at \<^verbatim>\<open>lastIndex\<close>; a match sets
  \<^verbatim>\<open>lastIndex\<close> to its end, a failure resets it to 0.
\<close>

definition regexp_test :: "regex \<Rightarrow> jsstring \<Rightarrow> nat \<Rightarrow> bool \<times> nat" where
  "regexp_test r s lastIndex =
     (if lastIndex > length s then (False, 0)
      else case search True r (drop lastIndex s) of
             None \<Rightarrow> (False, 0)
           | Some (m, s', cs) \<Rightarrow> (True, length s - length s'))"

definition fresh_store :: store where
  "fresh_store = (\<lambda>_. 0)"

section \<open>Policy and results\<close>

record SecurityConfig =
  allowedTags :: "jsstring list"
  allowedAttributes :: "(jsstring \<times> jsstring list) list"
  forbiddenPatterns :: "RegExp list"
  maxFileSize :: nat
  allowedFileTypes :: "jsstring list"

text \<open>
  A violation or warning is a string \<^verbatim>\<open>KIND: text\<close> in the source; the model keeps the kind
  and the values interpolated into the text.
\<close>

datatype violation =
    FILE_TOO_LARGE nat nat
  | FORBIDDEN_PATTERN string "jsstring list"
  | DANGEROUS_ATTRIBUTE jsstring
  | JAVASCRIPT_PROTOCOL jsstring
  | MALICIOUS_SCRIPT string
  | EXTERNAL_SCRIPT jsstring
  | CSS_JAVASCRIPT
  | CSS_EXPRESSION
  | CSS_EXTERNAL_IMPORT

datatype warning = SUSPICIOUS_TAG jsstring

record SecurityValidationResult =
  isValid :: bool
  violations :: "violation list"
  sanitizedContent :: "jsstring option"
  warnings :: "warning list"

text \<open>Parts shared by the patterns: \<^verbatim>\<open>\s*\<close>, \<^verbatim>\<open>["'`]\<close>, \<^verbatim>\<open>[^"'`]\<close>, \<^verbatim>\<open>["']\<close>,
  \<^verbatim>\<open>[^"']\<close>, \<^verbatim>\<open>[^>]\<close>.\<close>

definition sp_star :: regex where
  "sp_star = Star True (Cls False [Space])"

definition quote3 :: regex where
  "quote3 = Cls False [One 0x22, One 0x27, One 0x60]"

definition nonquote3 :: regex where
  "nonquote3 = Cls True [One 0x22, One 0x27, One 0x60]"

definition quote2 :: regex where
  "quote2 = Cls False [One 0x22, One 0x27]"

definition nonquote2 :: regex where
  "nonquote2 = Cls True [One 0x22, One 0x27]"

definition nongt :: regex where
  "nongt = Cls True [One 0x3E]"

text \<open>\<^verbatim>\<open>DEFAULT_SECURITY_CONFIG.forbiddenPatterns\<close>: the source text of each pattern and its
  syntax tree, in the order of the source.\<close>

definition forbidden_sources :: "(string \<times> regex) list" where
  \<open>forbidden_sources = [
    (''fetch'' @ [BS] @ ''s*'' @ [BS] @ ''('', Seqs [Lit ''fetch'', sp_star, Lit ''('']),
    (''XMLHttpRequest'', Lit ''XMLHttpRequest''),
    (''axios'' @ [BS] @ ''.'', Lit ''axios.''),
    ([BS] @ ''$'' @ [BS] @ ''.ajax'', Lit ''$.ajax''),
    ([BS] @ ''$'' @ [BS] @ ''.get'', Lit ''$.get''),
    ([BS] @ ''$'' @ [BS] @ ''.post'', Lit ''$.post''),
    (''document'' @ [BS] @ ''.cookie'', Lit ''document.cookie''),
    (''localStorage'', Lit ''localStorage''),
    (''sessionStorage'', Lit ''sessionStorage''),
    (''indexedDB'', Lit ''indexedDB''),
    (''eval'' @ [BS] @ ''s*'' @ [BS] @ ''('', Seqs [Lit ''eval'', sp_star, Lit ''('']),
    (''Function'' @ [BS] @ ''s*'' @ [BS] @ ''('', Seqs [Lit ''Function'', sp_star, Lit ''('']),
    (''setTimeout'' @ [BS] @ ''s*'' @ [BS] @ ''('' @ [BS] @ ''s*["'`][^"'`]*["'`]'',
       Seqs [Lit ''setTimeout'', sp_star, Lit ''('', sp_star, quote3, Star True nonquote3, quote3]),
    (''setInterval'' @ [BS] @ ''s*'' @ [BS] @ ''('' @ [BS] @ ''s*["'`][^"'`]*["'`]'',
       Seqs [Lit ''setInterval'', sp_star, Lit ''('', sp_star, quote3, Star True nonquote3, quote3]),
    (''document'' @ [BS] @ ''.write'', Lit ''document.write''),
    (''document'' @ [BS] @ ''.writeln'', Lit ''document.writeln''),
    (''innerHTML'' @ [BS] @ ''s*='' @ [BS] @ ''s*["'`][^"'`]*<script'',
       Seqs [Lit ''innerHTML'', sp_star, Lit ''='', sp_star, quote3, Star True nonquote3,
             Lit ''<script'']),
    (''import'' @ [BS] @ ''s*'' @ [BS] @ ''('', Seqs [Lit ''import'', sp_star, Lit ''('']),
    (''require'' @ [BS] @ ''s*'' @ [BS] @ ''('', Seqs [Lit ''require'', sp_star, Lit ''('']),
    (''loadScript'', Lit ''loadScript''),
    (''window'' @ [BS] @ ''.open'', Lit ''window.open''),
    (''window'' @ [BS] @ ''.location'', Lit ''window.location''),
    (''location'' @ [BS] @ ''.href'', Lit ''location.href''),
    (''location'' @ [BS] @ ''.replace'', Lit ''location.replace''),
    (''action'' @ [BS] @ ''s*='' @ [BS] @ ''s*["'`]https?:'' @ [BS] @ ''/'' @ [BS] @ ''/'',
       Seqs [Lit ''action'', sp_star, Lit ''='', sp_star, quote3, Lit ''http'', Opt (Lit ''s''),
             Lit ''://'']),
    (''WebSocket'', Lit ''WebSocket''),
    (''EventSource'', Lit ''EventSource''),
    (''FileReader'', Lit ''FileReader''),
    (''FormData'', Lit ''FormData''),
    (''Blob'', Lit ''Blob''),
    (''URL'' @ [BS] @ ''.createObjectURL'', Lit ''URL.createObjectURL'')
  ]\<close>

text \<open>Each regular expression literal of the configuration is an object of its own.\<close>

fun mk_regexps :: "nat \<Rightarrow> (string \<times> regex) list \<Rightarrow> RegExp list" where
  "mk_regexps n [] = []"
| "mk_regexps n ((src, r) # rest) =
     \<lparr>oid = n, source = src, pattern = r\<rparr> # mk_regexps (Suc n) rest"

definition DEFAULT_SECURITY_CONFIG :: SecurityConfig where
  \<open>DEFAULT_SECURITY_CONFIG = \<lparr>
     allowedTags = map js [''div'', ''span'', ''canvas'', ''script'', ''style'', ''p'',
       ''h1'', ''h2'', ''h3'', ''h4'', ''h5'', ''h6'', ''button'', ''input'', ''textarea'',
       ''select'', ''option'', ''label'', ''form'', ''img'', ''audio'', ''video'', ''br'', ''hr'',
       ''ul'', ''ol'', ''li'', ''table'', ''tr'', ''td'', ''th'', ''thead'', ''tbody'', ''strong'',
       ''em'', ''b'', ''i'', ''u'', ''a''],
     allowedAttributes = map (\<lambda>(t, as). (js t, map js as)) [
       (''*'', [''class'', ''id'', ''style'', ''data-*'']),
       (''canvas'', [''width'', ''height'']),
       (''input'', [''type'', ''value'', ''placeholder'', ''name'', ''required'', ''disabled'']),
       (''button'', [''type'', ''disabled'']),
       (''img'', [''src'', ''alt'', ''width'', ''height'']),
       (''audio'', [''src'', ''controls'', ''autoplay'', ''loop'']),
       (''video'', [''src'', ''controls'', ''autoplay'', ''loop'', ''width'', ''height'']),
       (''a'', [''href'', ''target'', ''rel'']),
       (''form'', [''action'', ''method'']),
       (''select'', [''name'', ''required'', ''disabled'']),
       (''option'', [''value'', ''selected'']),
       (''textarea'', [''name'', ''placeholder'', ''rows'', ''cols'', ''required'', ''disabled''])],
     forbiddenPatterns = mk_regexps 0 forbidden_sources,
     maxFileSize = 5 * 1024 * 1024,
     allowedFileTypes = map js [''text/html'', ''text/plain'']\<rparr>\<close>

section \<open>Scanner\<close>

text \<open>
  Step 2, \<^verbatim>\<open>htmlContent.match(pattern)\<close> for each forbidden pattern. \<^verbatim>\<open>match\<close> with the
  \<^verbatim>\<open>g\<close> flag starts from index 0 whatever \<^verbatim>\<open>lastIndex\<close> was, and leaves it at 0.
\<close>

fun forbidden_scan :: "jsstring \<Rightarrow> RegExp list \<Rightarrow> store \<Rightarrow> violation list \<times> store" where
  "forbidden_scan htmlContent [] st = ([], st)"
| "forbidden_scan htmlContent (p # ps) st =
     (let matches = match_all True (pattern p) htmlContent;
          (vs, st') = forbidden_scan htmlContent ps (st(oid p := 0))
      in ((if matches \<noteq> [] then [FORBIDDEN_PATTERN (source p) (take 3 matches)] else []) @ vs,
          st'))"

text \<open>Step 3, \<^verbatim>\<open>/<(\/?[a-zA-Z][a-zA-Z0-9]*)[^>]*>/g\<close>. \<open>tag_names\<close> is the sequence of values
  that \<^verbatim>\<open>tagName\<close> takes over the iterations of the loop: group 1 in lower case, with its
  first \<^verbatim>\<open>/\<close> removed. The set \<^verbatim>\<open>usedTags\<close> of the source is filled but never read.\<close>

definition tagRegex :: regex where
  "tagRegex = Seqs [Lit ''<'',
     Grp 1 (Seqs [Opt (Lit ''/''), Cls False [Rng 0x61 0x7A, Rng 0x41 0x5A],
                  Star True (Cls False [Rng 0x61 0x7A, Rng 0x41 0x5A, Rng 0x30 0x39])]),
     Star True nongt, Lit ''>'']"

definition tag_names :: "jsstring \<Rightarrow> jsstring list" where
  "tag_names htmlContent =
     map (\<lambda>(m, cs). remove1 0x2F (toLowerCase (group 1 cs))) (exec_all False tagRegex htmlContent)"

definition tag_scan :: "jsstring \<Rightarrow> jsstring list \<Rightarrow> warning list" where
  "tag_scan htmlContent allowed =
     concat (map (\<lambda>tagName. if tagName \<notin> set allowed then [SUSPICIOUS_TAG tagName] else [])
       (tag_names htmlContent))"

text \<open>Step 4, \<^verbatim>\<open>/<[^>]+\s+([a-zA-Z-]+)\s*=/g\<close>.\<close>

definition attrRegex :: regex where
  "attrRegex = Seqs [Lit ''<'', Plus nongt, Plus (Cls False [Space]),
     Grp 1 (Plus (Cls False [Rng 0x61 0x7A, Rng 0x41 0x5A, One 0x2D])), sp_star, Lit ''='']"

definition attr_scan :: "jsstring \<Rightarrow> violation list" where
  \<open>attr_scan htmlContent =
     concat (map (\<lambda>(m, cs).
        let attrName = toLowerCase (group 1 cs)
        in (if startsWith attrName (js ''on'') then [DANGEROUS_ATTRIBUTE attrName] else []) @
           (if includesStr htmlContent (attrName @ js ''="javascript:'')
            then [JAVASCRIPT_PROTOCOL attrName] else []))
       (exec_all False attrRegex htmlContent))\<close>

text \<open>Step 5, \<^verbatim>\<open>/<script[^>]*>([\s\S]*?)<\/script>/gi\<close>; inside each block,
  \<^verbatim>\<open>pattern.test(scriptContent)\<close> for each forbidden pattern, on the objects of the policy,
  and \<^verbatim>\<open>/src\s*=\s*["'`]([^"'`]+)["'`]/i\<close> on the whole block.\<close>

fun test_patterns :: "jsstring \<Rightarrow> RegExp list \<Rightarrow> store \<Rightarrow> violation list \<times> store" where
  "test_patterns scriptContent [] st = ([], st)"
| "test_patterns scriptContent (p # ps) st =
     (let (found, lastIndex) = regexp_test (pattern p) scriptContent (st (oid p));
          (vs, st') = test_patterns scriptContent ps (st(oid p := lastIndex))
      in ((if found then [MALICIOUS_SCRIPT (source p)] else []) @ vs, st'))"

definition scriptRegex :: regex where
  "scriptRegex = Seqs [Lit ''<script'', Star True nongt, Lit ''>'',
     Grp 1 (Star False (Cls False [Space, NonSpace])), Lit ''</script>'']"

definition srcRegex :: regex where
  "srcRegex = Seqs [Lit ''src'', sp_star, Lit ''='', sp_star, quote3, Grp 1 (Plus nonquote3), quote3]"

fun script_blocks ::
  "(jsstring \<times> caps) list \<Rightarrow> RegExp list \<Rightarrow> store \<Rightarrow> violation list \<times> store" where
  "script_blocks [] ps st = ([], st)"
| "script_blocks ((m0, cs) # rest) ps st =
     (let scriptContent = group 1 cs;
          (v1, st1) = test_patterns scriptContent ps st;
          v2 = (if includesStr m0 (js ''src='')
                then (case search True srcRegex m0 of
                        Some (m, s', cs') \<Rightarrow>
                          if startsWith (group 1 cs') (js ''http'')
                          then [EXTERNAL_SCRIPT (group 1 cs')] else []
                      | None \<Rightarrow> [])
                else []);
          (v3, st2) = script_blocks rest ps st1
      in (v1 @ v2 @ v3, st2))"

text \<open>Step 6, \<^verbatim>\<open>/<style[^>]*>([\s\S]*?)<\/style>/gi\<close>; the three tests inside use regular
  expression literals evaluated anew each time, so they start at index 0.\<close>

definition styleRegex :: regex where
  "styleRegex = Seqs [Lit ''<style'', Star True nongt, Lit ''>'',
     Grp 1 (Star False (Cls False [Space, NonSpace])), Lit ''</style>'']"

definition cssJavascript :: regex where
  "cssJavascript = Seqs [Lit ''javascript'', sp_star, Lit '':'']"

definition cssExpression :: regex where
  "cssExpression = Seqs [Lit ''expression'', sp_star, Lit ''('']"

definition cssImport :: regex where
  "cssImport = Seqs [Lit ''@import'', Plus (Cls False [Space]), Lit ''url'', sp_star, Lit ''('',
     sp_star, Opt quote3, Lit ''http'', Opt (Lit ''s''), Lit '':'']"

definition style_scan :: "jsstring \<Rightarrow> violation list" where
  "style_scan htmlContent =
     concat (map (\<lambda>(m, cs).
        let styleContent = group 1 cs
        in (if search True cssJavascript styleContent \<noteq> None then [CSS_JAVASCRIPT] else []) @
           (if search True cssExpression styleContent \<noteq> None then [CSS_EXPRESSION] else []) @
           (if search True cssImport styleContent \<noteq> None then [CSS_EXTERNAL_IMPORT] else []))
       (exec_all True styleRegex htmlContent))"

text \<open>
  \<^verbatim>\<open>validateHtmlContent(htmlContent, config)\<close>. The store holds the \<^verbatim>\<open>lastIndex\<close> of the
  policy's RegExp objects as the call finds them, and is returned as the call leaves them.
  The violations are pushed in the order of the steps: size, forbidden patterns, attributes,
  script blocks, style blocks.
\<close>

definition validateHtmlContent ::
  "jsstring \<Rightarrow> SecurityConfig \<Rightarrow> store \<Rightarrow> SecurityValidationResult \<times> store" where
  "validateHtmlContent htmlContent config st =
     (let contentSize = blob_size htmlContent;
          v1 = (if contentSize > maxFileSize config
                then [FILE_TOO_LARGE contentSize (maxFileSize config)] else []);
          (v2, st1) = forbidden_scan htmlContent (forbiddenPatterns config) st;
          wns = tag_scan htmlContent (allowedTags config);
          v4 = attr_scan htmlContent;
          (v5, st2) = script_blocks (exec_all True scriptRegex htmlContent)
                        (forbiddenPatterns config) st1;
          v6 = style_scan htmlContent;
          vs = v1 @ v2 @ v4 @ v5 @ v6
      in (\<lparr>isValid = (length vs = 0), violations = vs,
           sanitizedContent = (if length vs = 0 then Some htmlContent else None),
           warnings = wns\<rparr>, st2))"

section \<open>Sanitizer\<close>

text \<open>\<^verbatim>\<open>/\s+on\w+\s*=\s*["'][^"']*["']/gi\<close>, \<^verbatim>\<open>/javascript\s*:/gi\<close> and
  \<^verbatim>\<open>/style\s*=\s*["'][^"']*expression\s*\([^"']*["']/gi\<close>, each replaced by the empty
  string, in this order.\<close>

definition onAttrRegex :: regex where
  "onAttrRegex = Seqs [Plus (Cls False [Space]), Lit ''on'', Plus (Cls False [WordC]), sp_star,
     Lit ''='', sp_star, quote2, Star True nonquote2, quote2]"

definition javascriptRegex :: regex where
  "javascriptRegex = Seqs [Lit ''javascript'', sp_star, Lit '':'']"

definition styleExprRegex :: regex where
  "styleExprRegex = Seqs [Lit ''style'', sp_star, Lit ''='', sp_star, quote2, Star True nonquote2,
     Lit ''expression'', sp_star, Lit ''('', Star True nonquote2, quote2]"

definition sanitizeHtmlContent :: "jsstring \<Rightarrow> SecurityConfig \<Rightarrow> jsstring" where
  "sanitizeHtmlContent htmlContent config =
     (let sanitized = htmlContent;
          sanitized = replace_all True onAttrRegex sanitized;
          sanitized = replace_all True javascriptRegex sanitized;
          sanitized = replace_all True styleExprRegex sanitized
      in sanitized)"

section \<open>Auxiliary notions for the proofs\<close>

text \<open>The literal character with which every match of a regular expression must begin, where
  the syntax tree shows one.\<close>

fun lead :: "regex \<Rightarrow> cu option" where
  "lead (Chr x) = Some x"
| "lead (Seq a b) = lead a"
| "lead (Grp n r) = lead r"
| "lead r = None"

definition nonspace_lead :: "regex \<Rightarrow> bool" where
  "nonspace_lead r = (case lead r of Some x \<Rightarrow> \<not> is_space x | None \<Rightarrow> False)"

text \<open>Capture group \<open>n\<close> lies on every path through the regular expression.\<close>

fun sets_group :: "nat \<Rightarrow> regex \<Rightarrow> bool" where
  "sets_group n (Grp m r) = (n = m \<or> sets_group n r)"
| "sets_group n (Seq a b) = (sets_group n a \<or> sets_group n b)"
| "sets_group n (Alt a b) = (sets_group n a \<and> sets_group n b)"
| "sets_group n r = False"

text \<open>The states in which a greedy repetition of a single-character test \<open>P\<close> can end, in
  the order of the matcher: the longest run first.\<close>

fun star_states :: "(cu \<Rightarrow> bool) \<Rightarrow> jsstring \<Rightarrow> caps \<Rightarrow> mstate list" where
  "star_states P [] cs = [([], cs)]"
| "star_states P (c # t) cs = (if P c then star_states P t cs else []) @ [(c # t, cs)]"

subsection \<open>Tag occurrences, read off the markup\<close>

text \<open>
  A second description of the tag inventory, which does not use the regular expression
  matcher: what a tag occurrence is, in the words of the specification (tag-boundary
  scanning, not a full parse). The text is read from left to right. Outside a tag, a
  \<^verbatim>\<open><\<close> followed by an optional \<^verbatim>\<open>/\<close>, a letter and then letters and digits opens
  a tag of that name, in lower case; the tag reaches to the next \<^verbatim>\<open>>\<close>, where the
  occurrence is counted and the text is outside a tag again. Nothing inside a tag is read as
  a tag, and a tag that is never closed by \<^verbatim>\<open>>\<close> is no occurrence.
\<close>

definition is_alpha :: "cu \<Rightarrow> bool" where
  "is_alpha c = (is_lower c \<or> is_upper c)"

definition is_alnum :: "cu \<Rightarrow> bool" where
  "is_alnum c = (is_alpha c \<or> is_digit c)"

definition strip_slash :: "jsstring \<Rightarrow> jsstring" where
  "strip_slash s = (case s of [] \<Rightarrow> [] | c # t \<Rightarrow> if c = 0x2F then t else c # t)"

definition tag_start :: "jsstring \<Rightarrow> jsstring option" where
  "tag_start s =
     (case strip_slash s of
        [] \<Rightarrow> None
      | l # v \<Rightarrow> if is_alpha l then Some (toLowerCase (l # takeWhile is_alnum v)) else None)"

fun tag_occ :: "jsstring option \<Rightarrow> jsstring \<Rightarrow> jsstring list" where
  "tag_occ pending [] = []"
| "tag_occ None (c # t) = (if c = 0x3C then tag_occ (tag_start t) t else tag_occ None t)"
| "tag_occ (Some name) (c # t) =
     (if c = 0x3E then name # tag_occ None t else tag_occ (Some name) t)"

definition spec_tag_occurrences :: "jsstring \<Rightarrow> jsstring list" where
  "spec_tag_occurrences s = tag_occ None s"

text \<open>The default policy with the single forbidden pattern \<^verbatim>\<open>/\s/gi\<close> in place of its
  own.\<close>

definition space_pattern_config :: SecurityConfig where
  "space_pattern_config = DEFAULT_SECURITY_CONFIG\<lparr>forbiddenPatterns :=
     [\<lparr>oid = 0, source = [BS] @ ''s'', pattern = Cls False [Space]\<rparr>]\<rparr>"

section \<open>Properties of the matcher\<close>

declare ms.simps(6) [simp del]

lemma ms_star_unfold:
  "st' \<in> set (ms ic (Star greedy r) (s, cs)) \<longleftrightarrow>
     st' = (s, cs) \<or>
     (\<exists>s1 cs1. (s1, cs1) \<in> set (ms ic r (s, cs)) \<and> length s1 < length s \<and>
        st' \<in> set (ms ic (Star greedy r) (s1, cs1)))"
proof -
  have eq: "ms ic (Star greedy r) (s, cs) =
     (let more = concat (map (\<lambda>(s', cs'). if length s' < length s
                                              then ms ic (Star greedy r) (s', cs') else [])
                             (ms ic r (s, cs)))
      in if greedy then more @ [(s, cs)] else (s, cs) # more)"
    by (rule ms.simps(6))
  show ?thesis
    unfolding eq by (auto simp: Let_def split: if_splits)
qed

text \<open>A match never ends before the position where it started.\<close>

lemma ms_suffix_aux:
  "st' \<in> set (ms ic r st) \<Longrightarrow> length (fst st') \<le> length (fst st)"
proof (induction ic r st arbitrary: st' rule: ms.induct)
  case (1 ic st)
  then show ?case by simp
next
  case (2 ic x s cs)
  then show ?case by (auto split: list.splits if_splits)
next
  case (3 ic neg items s cs)
  then show ?case by (auto split: list.splits if_splits)
next
  case (4 ic a b st)
  from "4.prems" obtain st1 where m: "st1 \<in> set (ms ic a st)"
    and r: "st' \<in> set (ms ic b st1)"
    by auto
  from "4.IH"(1)[OF m] "4.IH"(2)[OF m r] show ?case by simp
next
  case (5 ic a b st)
  from "5.prems" have "st' \<in> set (ms ic a st) \<or> st' \<in> set (ms ic b st)" by simp
  then show ?case using "5.IH" by blast
next
  case (6 ic greedy r s cs)
  from "6.prems" consider "st' = (s, cs)"
    | s1 cs1 where "(s1, cs1) \<in> set (ms ic r (s, cs))" "length s1 < length s"
        "st' \<in> set (ms ic (Star greedy r) (s1, cs1))"
    unfolding ms_star_unfold[of st' ic greedy r s cs] by blast
  then show ?case
  proof cases
    case 1
    then show ?thesis by simp
  next
    case 2
    from "6.IH"(2)[OF 2(1) _ 2(2) 2(3)] 2(2) show ?thesis by simp
  qed
next
  case (7 ic n r s cs)
  from "7.prems" obtain s1 cs1 where "(s1, cs1) \<in> set (ms ic r (s, cs))" "fst st' = s1"
    by auto
  with "7.IH"[of "(s1, cs1)"] show ?case by simp
qed

lemma ms_suffix: "(s', cs') \<in> set (ms ic r (s, cs)) \<Longrightarrow> length s' \<le> length s"
  using ms_suffix_aux[of "(s', cs')" ic r "(s, cs)"] by simp

text \<open>A regular expression with a leading literal matches only where the input has that
  character, and consumes it.\<close>

lemma ms_lead:
  "lead r = Some x \<Longrightarrow> st' \<in> set (ms ic r (s, cs)) \<Longrightarrow>
     \<exists>c t. s = c # t \<and> canon ic x = canon ic c \<and> length (fst st') \<le> length t"
proof (induction r arbitrary: st' s cs x)
  case (Chr y)
  then show ?case by (auto split: list.splits if_splits)
next
  case (Seq a b)
  from Seq.prems(2) obtain st1 where m: "st1 \<in> set (ms ic a (s, cs))"
    and r: "st' \<in> set (ms ic b st1)"
    by auto
  from Seq.prems(1) have la: "lead a = Some x" by simp
  from Seq.IH(1)[OF la m] obtain c t where
    "s = c # t" "canon ic x = canon ic c" "length (fst st1) \<le> length t"
    by blast
  moreover from ms_suffix_aux[OF r] have "length (fst st') \<le> length (fst st1)" .
  ultimately show ?case by auto
next
  case (Grp n r)
  from Grp.prems(2) obtain s1 cs1 where m: "(s1, cs1) \<in> set (ms ic r (s, cs))"
    and e: "fst st' = s1"
    by auto
  from Grp.prems(1) have "lead r = Some x" by simp
  from Grp.IH[OF this m] e show ?case by auto
qed simp_all

text \<open>The rest of the input after a match is a suffix of the input before it, so the
  matched text is the prefix that was dropped.\<close>

lemma ms_prefix_aux:
  "st' \<in> set (ms ic r st) \<Longrightarrow> \<exists>p. fst st = p @ fst st'"
proof (induction ic r st arbitrary: st' rule: ms.induct)
  case (1 ic st)
  then show ?case by simp
next
  case (2 ic x s cs)
  then show ?case by (auto split: list.splits if_splits)
next
  case (3 ic neg items s cs)
  then show ?case by (auto split: list.splits if_splits)
next
  case (4 ic a b st)
  from "4.prems" obtain st1 where m: "st1 \<in> set (ms ic a st)"
    and r: "st' \<in> set (ms ic b st1)"
    by auto
  from "4.IH"(1)[OF m] obtain p where "fst st = p @ fst st1" by blast
  moreover from "4.IH"(2)[OF m r] obtain q where "fst st1 = q @ fst st'" by blast
  ultimately have "fst st = (p @ q) @ fst st'" by simp
  then show ?case by blast
next
  case (5 ic a b st)
  from "5.prems" have "st' \<in> set (ms ic a st) \<or> st' \<in> set (ms ic b st)" by simp
  then show ?case using "5.IH" by blast
next
  case (6 ic greedy r s cs)
  from "6.prems" consider "st' = (s, cs)"
    | s1 cs1 where "(s1, cs1) \<in> set (ms ic r (s, cs))" "length s1 < length s"
        "st' \<in> set (ms ic (Star greedy r) (s1, cs1))"
    unfolding ms_star_unfold[of st' ic greedy r s cs] by blast
  then show ?case
  proof cases
    case 1
    then show ?thesis by simp
  next
    case 2
    from "6.IH"(1)[OF 2(1)] obtain p where "s = p @ s1" by auto
    moreover from "6.IH"(2)[OF 2(1) _ 2(2) 2(3)] obtain q where "s1 = q @ fst st'" by auto
    ultimately have "fst (s, cs) = (p @ q) @ fst st'" by simp
    then show ?thesis by blast
  qed
next
  case (7 ic n r s cs)
  from "7.prems" obtain s1 cs1 where "(s1, cs1) \<in> set (ms ic r (s, cs))" "fst st' = s1"
    by auto
  with "7.IH"[of "(s1, cs1)"] show ?case by simp
qed

lemma ms_prefix:
  assumes "(s', cs') \<in> set (ms ic r (s, cs))"
  shows "s = take (length s - length s') s @ s'"
proof -
  from ms_prefix_aux[OF assms] obtain p where "s = p @ s'" by auto
  then show ?thesis by (metis add_diff_cancel_right' append_eq_conv_conj length_append)
qed

text \<open>A match with a leading literal consumes input, so the loop over the matches of such a
  regular expression always advances.\<close>

lemma ms_lead_consumes:
  assumes "lead r = Some x" and "(s', cs') \<in> set (ms ic r (s, cs))"
  shows "length s' < length s"
  using ms_lead[OF assms] by auto

lemma exec_all_lead:
  assumes "lead r = Some x"
  shows "exec_all ic r (c # t) =
     (case ms ic r (c # t, []) of
        (s', cs) # _ \<Rightarrow> (take (length (c # t) - length s') (c # t), cs) # exec_all ic r s'
      | [] \<Rightarrow> exec_all ic r t)"
proof (cases "ms ic r (c # t, [])")
  case Nil
  then show ?thesis by simp
next
  case (Cons st' rest)
  obtain s' cs' where st': "st' = (s', cs')" by (cases st')
  with Cons have "(s', cs') \<in> set (ms ic r (c # t, []))" by simp
  from ms_lead_consumes[OF assms this] Cons st' show ?thesis by simp
qed

text \<open>Captures are never dropped, and a group on every path is set in every match.\<close>

lemma ms_caps_kept:
  "st' \<in> set (ms ic r st) \<Longrightarrow> map_of (snd st) n \<noteq> None \<Longrightarrow> map_of (snd st') n \<noteq> None"
proof (induction ic r st arbitrary: st' rule: ms.induct)
  case (1 ic st)
  then show ?case by simp
next
  case (2 ic x s cs)
  then show ?case by (auto split: list.splits if_splits)
next
  case (3 ic neg items s cs)
  then show ?case by (auto split: list.splits if_splits)
next
  case (4 ic a b st)
  from "4.prems"(1) obtain st1 where m: "st1 \<in> set (ms ic a st)"
    and r: "st' \<in> set (ms ic b st1)"
    by auto
  from "4.IH"(2)[OF m r "4.IH"(1)[OF m "4.prems"(2)]] show ?case .
next
  case (5 ic a b st)
  from "5.prems"(1) have "st' \<in> set (ms ic a st) \<or> st' \<in> set (ms ic b st)" by simp
  then show ?case using "5.IH" "5.prems"(2) by blast
next
  case (6 ic greedy r s cs)
  from "6.prems"(1) consider "st' = (s, cs)"
    | s1 cs1 where "(s1, cs1) \<in> set (ms ic r (s, cs))" "length s1 < length s"
        "st' \<in> set (ms ic (Star greedy r) (s1, cs1))"
    unfolding ms_star_unfold[of st' ic greedy r s cs] by blast
  then show ?case
  proof cases
    case 1
    with "6.prems"(2) show ?thesis by simp
  next
    case 2
    from "6.IH"(1)[OF 2(1) "6.prems"(2)] have "map_of (snd (s1, cs1)) n \<noteq> None" .
    from "6.IH"(2)[OF 2(1) _ 2(2) 2(3) this] show ?thesis by simp
  qed
next
  case (7 ic m r s cs)
  from "7.prems"(1) obtain s1 cs1 where i: "(s1, cs1) \<in> set (ms ic r (s, cs))"
    and e: "snd st' = (m, take (length s - length s1) s) # cs1"
    by auto
  from "7.IH"[OF i "7.prems"(2)] e show ?case by simp
qed

lemma ms_sets_group:
  "sets_group n r \<Longrightarrow> st' \<in> set (ms ic r st) \<Longrightarrow> map_of (snd st') n \<noteq> None"
proof (induction r arbitrary: st st')
  case (Seq a b)
  from Seq.prems(2) obtain st1 where m: "st1 \<in> set (ms ic a st)"
    and r: "st' \<in> set (ms ic b st1)"
    by auto
  from Seq.prems(1) consider "sets_group n a" | "sets_group n b" by auto
  then show ?case
  proof cases
    case 1
    from ms_caps_kept[OF r Seq.IH(1)[OF 1 m]] show ?thesis .
  next
    case 2
    from Seq.IH(2)[OF 2 r] show ?thesis .
  qed
next
  case (Alt a b)
  from Alt.prems(1) have a: "sets_group n a" and b: "sets_group n b" by simp_all
  from Alt.prems(2) consider "st' \<in> set (ms ic a st)" | "st' \<in> set (ms ic b st)" by auto
  then show ?case
  proof cases
    case 1
    from Alt.IH(1)[OF a 1] show ?thesis .
  next
    case 2
    from Alt.IH(2)[OF b 2] show ?thesis .
  qed
next
  case (Grp m r)
  obtain s cs where st: "st = (s, cs)" by (cases st)
  from Grp.prems(2) st obtain s1 cs1 where i: "(s1, cs1) \<in> set (ms ic r (s, cs))"
    and e: "snd st' = (m, take (length s - length s1) s) # cs1"
    by auto
  show ?case
  proof (cases "n = m")
    case True
    with e show ?thesis by simp
  next
    case False
    with Grp.prems(1) have "sets_group n r" by simp
    from Grp.IH[OF this i] e show ?thesis by simp
  qed
qed simp_all

lemma exec_all_groups:
  "sets_group n r \<Longrightarrow> (m, cs) \<in> set (exec_all ic r s) \<Longrightarrow> map_of cs n \<noteq> None"
proof (induction ic r s rule: exec_all.induct)
  case (1 ic r)
  then show ?case by simp
next
  case (2 ic r c t)
  show ?case
  proof (cases "ms ic r (c # t, [])")
    case Nil
    with 2 show ?thesis by simp
  next
    case (Cons st' rest)
    obtain s' cs' where st': "st' = (s', cs')" by (cases st')
    with Cons have i: "(s', cs') \<in> set (ms ic r (c # t, []))" by simp
    from ms_sets_group[OF "2.prems"(1) i] have g: "map_of cs' n \<noteq> None" by simp
    show ?thesis
    proof (cases "length s' < length (c # t)")
      case True
      with "2.prems"(2) Cons st' have "(m, cs) = (take (length (c # t) - length s') (c # t), cs')
          \<or> (m, cs) \<in> set (exec_all ic r s')"
        by simp
      then show ?thesis
      proof
        assume "(m, cs) = (take (length (c # t) - length s') (c # t), cs')"
        with g show ?thesis by simp
      next
        assume "(m, cs) \<in> set (exec_all ic r s')"
        from "2.IH"(2)[OF Cons st'[symmetric] True "2.prems"(1) this] show ?thesis .
      qed
    next
      case False
      with "2.prems"(2) Cons st' show ?thesis by simp
    qed
  qed
qed

lemma search_groups:
  "sets_group n r \<Longrightarrow> search ic r s = Some (m, s', cs) \<Longrightarrow> map_of cs n \<noteq> None"
proof (induction ic r s rule: search.induct)
  case (1 ic r)
  show ?case
  proof (cases "ms ic r ([], [])")
    case Nil
    with "1.prems"(2) show ?thesis by simp
  next
    case (Cons st' rest)
    then have "st' \<in> set (ms ic r ([], []))" by simp
    from ms_sets_group[OF "1.prems"(1) this] "1.prems"(2) Cons show ?thesis
      by (cases st') simp
  qed
next
  case (2 ic r c t)
  show ?case
  proof (cases "ms ic r (c # t, [])")
    case Nil
    with "2.prems"(2) have "search ic r t = Some (m, s', cs)" by simp
    from "2.IH"[OF Nil "2.prems"(1) this] show ?thesis .
  next
    case (Cons st' rest)
    then have "st' \<in> set (ms ic r (c # t, []))" by simp
    from ms_sets_group[OF "2.prems"(1) this] "2.prems"(2) Cons show ?thesis
      by (cases st') simp
  qed
qed

lemma fixed_groups:
  "sets_group 1 tagRegex" "sets_group 1 attrRegex" "sets_group 1 scriptRegex"
  "sets_group 1 styleRegex" "sets_group 1 srcRegex"
  by (simp_all add: tagRegex_def attrRegex_def scriptRegex_def styleRegex_def srcRegex_def)

lemma concat_map_if:
  "concat (map (\<lambda>x. if P x then [f x] else []) xs) = map f (filter P xs)"
  by (induction xs) simp_all

text \<open>The equations that evaluate the model on a concrete input.\<close>

lemmas eval_defs = js_def BS_def forbidden_sources_def Lit_def sp_star_def quote3_def nonquote3_def
  quote2_def nonquote2_def nongt_def canon_def to_upper_def to_lower_def is_lower_def is_upper_def
  is_space_def is_digit_def is_word_def Plus_def Opt_def Let_def fresh_store_def group_def
  toLowerCase_def validateHtmlContent_def DEFAULT_SECURITY_CONFIG_def tag_scan_def tag_names_def
  attr_scan_def style_scan_def tagRegex_def attrRegex_def scriptRegex_def styleRegex_def
  srcRegex_def cssJavascript_def cssExpression_def cssImport_def regexp_test_def
  is_high_surrogate_def is_low_surrogate_def onAttrRegex_def javascriptRegex_def
  styleExprRegex_def sanitizeHtmlContent_def ms.simps(6)

section \<open>The result record\<close>

text \<open>
  C1. For every content string and every policy, the result of \<open>validateHtmlContent\<close> has
  \<open>isValid\<close> true if and only if its list of violations is empty. Warnings never affect
  \<open>isValid\<close>: they come from the allowed tags of the policy alone, and changing these
  leaves \<open>isValid\<close> as it is.
\<close>

theorem isValid_iff_no_violations:
  "isValid (fst (validateHtmlContent c cfg st)) =
     (violations (fst (validateHtmlContent c cfg st)) = []) \<and>
   isValid (fst (validateHtmlContent c (cfg\<lparr>allowedTags := ts\<rparr>) st)) =
     isValid (fst (validateHtmlContent c cfg st))"
  by (simp add: validateHtmlContent_def Let_def split: prod.splits)

text \<open>
  C8. For every content string and policy, \<open>sanitizedContent\<close> is present if and only if
  \<open>isValid\<close> is true, and when present it is the input content itself: the scanner never
  rewrites accepted content.
\<close>

theorem sanitizedContent_iff_valid:
  "sanitizedContent (fst (validateHtmlContent c cfg st)) =
     (if isValid (fst (validateHtmlContent c cfg st)) then Some c else None)"
  by (simp add: validateHtmlContent_def Let_def split: prod.splits)

section \<open>The size check\<close>

text \<open>Each step of the scanner emits violations of its own kinds only.\<close>

lemma forbidden_scan_kinds:
  "v \<in> set (fst (forbidden_scan h ps st)) \<Longrightarrow> \<exists>src found. v = FORBIDDEN_PATTERN src found"
proof (induction ps arbitrary: st)
  case Nil
  then show ?case by simp
next
  case (Cons p ps)
  obtain vs st' where r: "forbidden_scan h ps (st(oid p := 0)) = (vs, st')"
    by (cases "forbidden_scan h ps (st(oid p := 0))")
  from Cons.prems r have "(\<exists>found. v = FORBIDDEN_PATTERN (source p) found) \<or> v \<in> set vs"
    by (auto simp: Let_def split: if_splits)
  moreover have "v \<in> set vs \<Longrightarrow> \<exists>src found. v = FORBIDDEN_PATTERN src found"
    using Cons.IH[of "st(oid p := 0)", unfolded r] by simp
  ultimately show ?case by blast
qed

lemma attr_scan_kinds:
  "v \<in> set (attr_scan h) \<Longrightarrow> (\<exists>a. v = DANGEROUS_ATTRIBUTE a) \<or> (\<exists>a. v = JAVASCRIPT_PROTOCOL a)"
  by (auto simp: attr_scan_def Let_def split: if_splits)

lemma test_patterns_kinds:
  "v \<in> set (fst (test_patterns sc ps st)) \<Longrightarrow> \<exists>src. v = MALICIOUS_SCRIPT src"
proof (induction ps arbitrary: st)
  case Nil
  then show ?case by simp
next
  case (Cons p ps)
  obtain found li where t: "regexp_test (pattern p) sc (st (oid p)) = (found, li)"
    by (cases "regexp_test (pattern p) sc (st (oid p))")
  obtain vs st' where r: "test_patterns sc ps (st(oid p := li)) = (vs, st')"
    by (cases "test_patterns sc ps (st(oid p := li))")
  from Cons.prems t r have "v = MALICIOUS_SCRIPT (source p) \<or> v \<in> set vs"
    by (auto simp: Let_def split: if_splits)
  moreover have "v \<in> set vs \<Longrightarrow> \<exists>src. v = MALICIOUS_SCRIPT src"
    using Cons.IH[of "st(oid p := li)", unfolded r] by simp
  ultimately show ?case by blast
qed

lemma script_blocks_kinds:
  "v \<in> set (fst (script_blocks bs ps st)) \<Longrightarrow>
     (\<exists>src. v = MALICIOUS_SCRIPT src) \<or> (\<exists>url. v = EXTERNAL_SCRIPT url)"
proof (induction bs arbitrary: st)
  case Nil
  then show ?case by simp
next
  case (Cons b bs)
  obtain m0 cs where b: "b = (m0, cs)"
    by (cases b)
  obtain v1 st1 where t: "test_patterns (group 1 cs) ps st = (v1, st1)"
    by (cases "test_patterns (group 1 cs) ps st")
  obtain v3 st2 where r: "script_blocks bs ps st1 = (v3, st2)"
    by (cases "script_blocks bs ps st1")
  define v2 where "v2 =
    (if includesStr m0 (js ''src='')
     then (case search True srcRegex m0 of
             Some (m, s', cs') \<Rightarrow>
               if startsWith (group 1 cs') (js ''http'') then [EXTERNAL_SCRIPT (group 1 cs')] else []
           | None \<Rightarrow> [])
     else [])"
  have eq: "script_blocks (b # bs) ps st = (v1 @ v2 @ v3, st2)"
    by (simp add: b t r v2_def Let_def del: One_nat_def)
  have "\<forall>w \<in> set v2. \<exists>url. w = EXTERNAL_SCRIPT url"
    apply (cases "includesStr m0 (js ''src='')")
     apply (cases "search True srcRegex m0")
      apply (simp add: v2_def)
     apply (auto simp add: v2_def split: prod.split)[1]
    apply (simp add: v2_def)
    done
  then have "v \<in> set v2 \<Longrightarrow> \<exists>url. v = EXTERNAL_SCRIPT url"
    by blast
  with Cons.prems have
    "v \<in> set v1 \<or> (\<exists>url. v = EXTERNAL_SCRIPT url) \<or> v \<in> set v3"
    unfolding eq by auto
  moreover have "v \<in> set v1 \<Longrightarrow> \<exists>src. v = MALICIOUS_SCRIPT src"
    using test_patterns_kinds[of v "group 1 cs" ps st, unfolded t] by simp
  moreover have "v \<in> set v3 \<Longrightarrow>
      (\<exists>src. v = MALICIOUS_SCRIPT src) \<or> (\<exists>url. v = EXTERNAL_SCRIPT url)"
    using Cons.IH[of st1, unfolded r] by simp
  ultimately show ?case by blast
qed

lemma style_scan_kinds:
  "v \<in> set (style_scan h) \<Longrightarrow>
     v = CSS_JAVASCRIPT \<or> v = CSS_EXPRESSION \<or> v = CSS_EXTERNAL_IMPORT"
  by (auto simp: style_scan_def Let_def split: if_splits)

lemma file_too_large_iff:
  "FILE_TOO_LARGE n l \<in> set (violations (fst (validateHtmlContent c cfg st))) \<longleftrightarrow>
     n = blob_size c \<and> l = maxFileSize cfg \<and> maxFileSize cfg < blob_size c"
proof -
  obtain v2 st1 where f: "forbidden_scan c (forbiddenPatterns cfg) st = (v2, st1)"
    by (cases "forbidden_scan c (forbiddenPatterns cfg) st")
  obtain v5 st2 where
    s: "script_blocks (exec_all True scriptRegex c) (forbiddenPatterns cfg) st1 = (v5, st2)"
    by (cases "script_blocks (exec_all True scriptRegex c) (forbiddenPatterns cfg) st1")
  have 2: "FILE_TOO_LARGE n l \<notin> set v2"
    using forbidden_scan_kinds[of "FILE_TOO_LARGE n l" c "forbiddenPatterns cfg" st] f by auto
  have 4: "FILE_TOO_LARGE n l \<notin> set (attr_scan c)"
    using attr_scan_kinds[of "FILE_TOO_LARGE n l" c] by auto
  have 5: "FILE_TOO_LARGE n l \<notin> set v5"
    using script_blocks_kinds[of "FILE_TOO_LARGE n l" "exec_all True scriptRegex c"
        "forbiddenPatterns cfg" st1] s
    by auto
  have 6: "FILE_TOO_LARGE n l \<notin> set (style_scan c)"
    using style_scan_kinds[of "FILE_TOO_LARGE n l" c] by auto
  show ?thesis
    using 2 4 5 6 by (auto simp: validateHtmlContent_def Let_def f s)
qed

lemma default_maxFileSize: "maxFileSize DEFAULT_SECURITY_CONFIG = 5 * 1024 * 1024"
  by (simp add: DEFAULT_SECURITY_CONFIG_def)

lemma valid_iff: 
  "isValid (fst (validateHtmlContent c cfg st)) =
     (violations (fst (validateHtmlContent c cfg st)) = [])"
  by (simp add: validateHtmlContent_def Let_def split: prod.splits)

text \<open>A string of \<open>n\<close> copies of a code unit from U+0800 on that is no high surrogate has
  \<open>3 * n\<close> bytes.\<close>

lemma blob_size_three:
  "0x800 \<le> x \<Longrightarrow> \<not> is_high_surrogate x \<Longrightarrow> blob_size (replicate n x) = 3 * n"
proof (induction n)
  case 0
  then show ?case by simp
next
  case (Suc n)
  have "(0x80 :: cu) \<le> 0x800" by simp
  from this Suc.prems(1) have "0x80 \<le> x" by (rule order_trans)
  with Suc show ?case by (cases n) (simp_all add: not_less[symmetric])
qed

text \<open>A string of \<open>n\<close> ASCII code units has \<open>n\<close> bytes.\<close>

lemma blob_size_one:
  "x < 0x80 \<Longrightarrow> blob_size (replicate n x) = n"
proof (induction n)
  case 0
  then show ?case by simp
next
  case (Suc n)
  then show ?case by (cases n) simp_all
qed


text \<open>
  C6. Under the default policy, whose size limit is 5 * 1024 * 1024 bytes, the violations
  contain a \<open>FILE_TOO_LARGE\<close> entry exactly when the UTF-8 byte length of the content
  exceeds the limit, the entry reports that byte length and the limit, and the content is
  then invalid; content at or below the limit gets no \<open>FILE_TOO_LARGE\<close> entry.
\<close>

theorem file_too_large_default:
  "maxFileSize DEFAULT_SECURITY_CONFIG = 5 * 1024 * 1024 \<and>
   (FILE_TOO_LARGE n l
      \<in> set (violations (fst (validateHtmlContent c DEFAULT_SECURITY_CONFIG st)))) =
     (n = blob_size c \<and> l = 5 * 1024 * 1024 \<and> 5 * 1024 * 1024 < blob_size c) \<and>
   (5 * 1024 * 1024 < blob_size c \<longrightarrow>
      \<not> isValid (fst (validateHtmlContent c DEFAULT_SECURITY_CONFIG st)))"
proof -
  have a: "(FILE_TOO_LARGE n l
      \<in> set (violations (fst (validateHtmlContent c DEFAULT_SECURITY_CONFIG st)))) =
     (n = blob_size c \<and> l = 5 * 1024 * 1024 \<and> 5 * 1024 * 1024 < blob_size c)"
    unfolding file_too_large_iff default_maxFileSize ..
  have c: "5 * 1024 * 1024 < blob_size c \<longrightarrow>
      \<not> isValid (fst (validateHtmlContent c DEFAULT_SECURITY_CONFIG st))"
  proof
    assume big: "5 * 1024 * 1024 < blob_size c"
    have "FILE_TOO_LARGE (blob_size c) (maxFileSize DEFAULT_SECURITY_CONFIG)
        \<in> set (violations (fst (validateHtmlContent c DEFAULT_SECURITY_CONFIG st)))"
      unfolding file_too_large_iff using big default_maxFileSize by simp
    then have "violations (fst (validateHtmlContent c DEFAULT_SECURITY_CONFIG st)) \<noteq> []"
      by auto
    then show "\<not> isValid (fst (validateHtmlContent c DEFAULT_SECURITY_CONFIG st))"
      unfolding valid_iff .
  qed
  from default_maxFileSize a c show ?thesis by blast
qed

text \<open>
  The size is the byte length, not the character count: 1747627 copies of U+4E2D are fewer
  than 5 * 1024 * 1024 characters and 5242881 bytes, one byte over the limit.
\<close>

theorem file_too_large_default_witness:
  "length (replicate 1747627 (0x4E2D :: cu)) < 5 * 1024 * 1024 \<and>
   5 * 1024 * 1024 < blob_size (replicate 1747627 0x4E2D) \<and>
   FILE_TOO_LARGE 5242881 5242880
     \<in> set (violations (fst (validateHtmlContent (replicate 1747627 0x4E2D)
                DEFAULT_SECURITY_CONFIG fresh_store))) \<and>
   \<not> isValid (fst (validateHtmlContent (replicate 1747627 0x4E2D)
                DEFAULT_SECURITY_CONFIG fresh_store))"
proof -
  have s: "blob_size (replicate 1747627 (0x4E2D :: cu)) = 5242881"
    using blob_size_three[of "0x4E2D" 1747627] by (simp add: is_high_surrogate_def)
  have l: "length (replicate 1747627 (0x4E2D :: cu)) = 1747627"
    by (rule length_replicate)
  from file_too_large_default[of 5242881 5242880 "replicate 1747627 0x4E2D" fresh_store]
  show ?thesis
    unfolding s l by simp
qed

section \<open>White space\<close>

lemma space_not_lower: "is_space c \<Longrightarrow> \<not> is_lower c"
  unfolding is_space_def is_lower_def by unat_arith

lemma upper_not_space: "is_lower x \<Longrightarrow> \<not> is_space (x - 0x20)"
  unfolding is_space_def is_lower_def by unat_arith

lemma canon_space:
  assumes "is_space c" and "\<not> is_space x"
  shows "canon ic x \<noteq> canon ic c"
proof -
  from assms(1) have c: "canon ic c = c"
    by (simp add: canon_def to_upper_def space_not_lower)
  have "\<not> is_space (canon ic x)"
    using assms(2) upper_not_space[of x] by (simp add: canon_def to_upper_def)
  with assms(1) c show ?thesis by auto
qed

text \<open>A regular expression whose leading literal is no white space finds nothing in a
  string of white space.\<close>

lemma ms_space:
  assumes "nonspace_lead r" and "list_all is_space s"
  shows "ms ic r (s, cs) = []"
proof (rule ccontr)
  assume "ms ic r (s, cs) \<noteq> []"
  then obtain st' where m: "st' \<in> set (ms ic r (s, cs))"
    by (cases "ms ic r (s, cs)") auto
  from assms(1) obtain x where l: "lead r = Some x" and x: "\<not> is_space x"
    by (auto simp: nonspace_lead_def split: option.splits)
  from ms_lead[OF l m] obtain c t where "s = c # t" "canon ic x = canon ic c"
    by blast
  with assms(2) x canon_space[of c x ic] show False by simp
qed

lemma match_all_space:
  "nonspace_lead r \<Longrightarrow> list_all is_space s \<Longrightarrow> match_all ic r s = []"
proof (induction s)
  case Nil
  then show ?case using ms_space[of r "[]" ic "[]"] by simp
next
  case (Cons c t)
  then show ?case using ms_space[of r "c # t" ic "[]"] by simp
qed

lemma exec_all_space:
  "nonspace_lead r \<Longrightarrow> list_all is_space s \<Longrightarrow> exec_all ic r s = []"
proof (induction s)
  case Nil
  then show ?case by simp
next
  case (Cons c t)
  then show ?case using ms_space[of r "c # t" ic "[]"] by simp
qed

lemma fixed_leads:
  "nonspace_lead tagRegex" "nonspace_lead attrRegex" "nonspace_lead scriptRegex"
  "nonspace_lead styleRegex"
  by (simp_all add: nonspace_lead_def tagRegex_def attrRegex_def scriptRegex_def styleRegex_def
      Lit_def js_def is_space_def)

text \<open>The violations of step 2 are empty exactly when no forbidden pattern matches.\<close>

lemma forbidden_scan_nil_iff:
  "(fst (forbidden_scan h ps st) = []) =
     list_all (\<lambda>p. match_all True (pattern p) h = []) ps"
proof (induction ps arbitrary: st)
  case Nil
  show ?case by simp
next
  case (Cons p ps)
  obtain vs st' where r: "forbidden_scan h ps (st(oid p := 0)) = (vs, st')"
    by (cases "forbidden_scan h ps (st(oid p := 0))")
  from Cons.IH[of "st(oid p := 0)", unfolded r]
  have "(vs = []) = list_all (\<lambda>p. match_all True (pattern p) h = []) ps"
    by simp
  then show ?case
    by (simp add: Let_def r)
qed

lemma default_patterns_lead:
  "list_all (\<lambda>p. nonspace_lead (pattern p)) (forbiddenPatterns DEFAULT_SECURITY_CONFIG)"
  by (simp add: DEFAULT_SECURITY_CONFIG_def forbidden_sources_def nonspace_lead_def Lit_def
      js_def is_space_def)

lemma default_no_match:
  assumes "list_all is_space c"
  shows "list_all (\<lambda>p. match_all True (pattern p) c = [])
     (forbiddenPatterns DEFAULT_SECURITY_CONFIG)"
  using default_patterns_lead match_all_space[OF _ assms]
  unfolding list_all_iff by blast

text \<open>
  C7, as the code has it. For every content string of white space only (the empty string
  included) and every policy, the scan yields \<open>isValid\<close> true, no violations and no
  warnings if and only if the UTF-8 byte length of the content does not exceed the size limit
  of the policy and no forbidden pattern of the policy matches anywhere in the content. The
  warnings are empty in either case, and no forbidden pattern of the default policy matches
  such content.
\<close>

theorem whitespace_content_valid:
  assumes "list_all is_space c"
  shows "((isValid (fst (validateHtmlContent c cfg st)) \<and>
           violations (fst (validateHtmlContent c cfg st)) = [] \<and>
           warnings (fst (validateHtmlContent c cfg st)) = []) =
          (blob_size c \<le> maxFileSize cfg \<and>
           list_all (\<lambda>p. match_all True (pattern p) c = []) (forbiddenPatterns cfg))) \<and>
         warnings (fst (validateHtmlContent c cfg st)) = [] \<and>
         list_all (\<lambda>p. match_all True (pattern p) c = [])
           (forbiddenPatterns DEFAULT_SECURITY_CONFIG)"
proof -
  obtain v2 st1 where f: "forbidden_scan c (forbiddenPatterns cfg) st = (v2, st1)"
    by (cases "forbidden_scan c (forbiddenPatterns cfg) st")
  from forbidden_scan_nil_iff[of c "forbiddenPatterns cfg" st] f
  have v2: "(v2 = []) = list_all (\<lambda>p. match_all True (pattern p) c = []) (forbiddenPatterns cfg)"
    by simp
  have e: "exec_all False tagRegex c = []" "exec_all False attrRegex c = []"
    "exec_all True scriptRegex c = []" "exec_all True styleRegex c = []"
    using assms fixed_leads by (simp_all add: exec_all_space)
  have r: "fst (validateHtmlContent c cfg st) =
     \<lparr>isValid = (\<not> maxFileSize cfg < blob_size c \<and> v2 = []),
      violations = (if maxFileSize cfg < blob_size c
                    then [FILE_TOO_LARGE (blob_size c) (maxFileSize cfg)] else []) @ v2,
      sanitizedContent = (if \<not> maxFileSize cfg < blob_size c \<and> v2 = [] then Some c else None),
      warnings = []\<rparr>"
    by (simp add: validateHtmlContent_def Let_def f e tag_scan_def tag_names_def attr_scan_def
        style_scan_def)
  have 1: "(isValid (fst (validateHtmlContent c cfg st)) \<and>
           violations (fst (validateHtmlContent c cfg st)) = [] \<and>
           warnings (fst (validateHtmlContent c cfg st)) = []) =
          (blob_size c \<le> maxFileSize cfg \<and>
           list_all (\<lambda>p. match_all True (pattern p) c = []) (forbiddenPatterns cfg))"
    unfolding r using v2 by (auto simp: not_less)
  have 2: "warnings (fst (validateHtmlContent c cfg st)) = []"
    unfolding r by simp
  from 1 2 default_no_match[OF assms] show ?thesis by blast
qed

text \<open>The default policy on a space, a line feed, a tab and an ideographic space.\<close>

theorem whitespace_content_valid_witness:
  \<open>list_all is_space (js '' '' @ [0x0A, 0x09, 0x3000]) \<and>
   blob_size (js '' '' @ [0x0A, 0x09, 0x3000]) \<le> maxFileSize DEFAULT_SECURITY_CONFIG \<and>
   isValid (fst (validateHtmlContent (js '' '' @ [0x0A, 0x09, 0x3000])
      DEFAULT_SECURITY_CONFIG fresh_store)) \<and>
   violations (fst (validateHtmlContent (js '' '' @ [0x0A, 0x09, 0x3000])
      DEFAULT_SECURITY_CONFIG fresh_store)) = [] \<and>
   warnings (fst (validateHtmlContent (js '' '' @ [0x0A, 0x09, 0x3000])
      DEFAULT_SECURITY_CONFIG fresh_store)) = []\<close>
proof -
  have 1: "list_all is_space (js '' '' @ [0x0A, 0x09, 0x3000])"
    by (simp add: js_def is_space_def)
  have 2: "blob_size (js '' '' @ [0x0A, 0x09, 0x3000]) \<le> maxFileSize DEFAULT_SECURITY_CONFIG"
    by (simp add: js_def DEFAULT_SECURITY_CONFIG_def is_high_surrogate_def)
  from 1 2 whitespace_content_valid[OF 1, of DEFAULT_SECURITY_CONFIG fresh_store]
  show ?thesis by blast
qed

text \<open>
  C7 as stated fails. Under the default policy, 5242881 spaces are one byte over the size
  limit and are rejected as too large; and one space under the policy that forbids
  \<^verbatim>\<open>/\s/gi\<close> matches a forbidden pattern. Both policies have a positive size limit.
\<close>

theorem whitespace_content_counterexample:
  \<open>list_all is_space (replicate 5242881 (0x20 :: cu)) \<and>
   0 < maxFileSize DEFAULT_SECURITY_CONFIG \<and>
   FILE_TOO_LARGE 5242881 5242880
     \<in> set (violations (fst (validateHtmlContent (replicate 5242881 0x20)
                DEFAULT_SECURITY_CONFIG fresh_store))) \<and>
   \<not> isValid (fst (validateHtmlContent (replicate 5242881 0x20)
                DEFAULT_SECURITY_CONFIG fresh_store)) \<and>
   list_all is_space (js '' '') \<and> 0 < maxFileSize space_pattern_config \<and>
   fst (validateHtmlContent (js '' '') space_pattern_config fresh_store) =
     \<lparr>isValid = False, violations = [FORBIDDEN_PATTERN ([BS] @ ''s'') [js '' '']],
      sanitizedContent = None, warnings = []\<rparr>\<close>
proof -
  let ?c = "replicate 5242881 (0x20 :: cu)"
  have 1: "list_all is_space ?c"
    unfolding list_all_iff by (auto simp: is_space_def)
  have s: "blob_size ?c = 5242881"
    using blob_size_one[of "0x20" 5242881] by simp
  have 2: "FILE_TOO_LARGE 5242881 5242880
     \<in> set (violations (fst (validateHtmlContent ?c DEFAULT_SECURITY_CONFIG fresh_store)))"
    unfolding file_too_large_iff s default_maxFileSize by simp
  then have "violations (fst (validateHtmlContent ?c DEFAULT_SECURITY_CONFIG fresh_store)) \<noteq> []"
    by auto
  then have 3: "\<not> isValid (fst (validateHtmlContent ?c DEFAULT_SECURITY_CONFIG fresh_store))"
    unfolding valid_iff .
  have 4: "0 < maxFileSize DEFAULT_SECURITY_CONFIG"
    unfolding default_maxFileSize by simp
  have 5: \<open>list_all is_space (js '' '') \<and> 0 < maxFileSize space_pattern_config \<and>
   fst (validateHtmlContent (js '' '') space_pattern_config fresh_store) =
     \<lparr>isValid = False, violations = [FORBIDDEN_PATTERN ([BS] @ ''s'') [js '' '']],
      sanitizedContent = None, warnings = []\<rparr>\<close>
    by (simp add: eval_defs space_pattern_config_def)
  from 1 2 3 4 5 show ?thesis by blast
qed

section \<open>Determinism\<close>

text \<open>Step 2 reports the same violations whatever the \<^verbatim>\<open>lastIndex\<close> values were, and
  leaves every forbidden pattern of the policy at \<^verbatim>\<open>lastIndex\<close> 0.\<close>

lemma forbidden_scan_fst:
  "fst (forbidden_scan h ps st) = fst (forbidden_scan h ps st')"
proof (induction ps arbitrary: st st')
  case Nil
  then show ?case by simp
next
  case (Cons p ps)
  obtain vs s1 where r: "forbidden_scan h ps (st(oid p := 0)) = (vs, s1)"
    by (cases "forbidden_scan h ps (st(oid p := 0))")
  obtain vs' s1' where r': "forbidden_scan h ps (st'(oid p := 0)) = (vs', s1')"
    by (cases "forbidden_scan h ps (st'(oid p := 0))")
  from Cons.IH[of "st(oid p := 0)" "st'(oid p := 0)", unfolded r r'] have "vs = vs'"
    by simp
  then show ?case
    by (simp add: Let_def r r')
qed

lemma forbidden_scan_snd:
  "snd (forbidden_scan h ps st) x = (if x \<in> oid ` set ps then 0 else st x)"
proof (induction ps arbitrary: st)
  case Nil
  then show ?case by simp
next
  case (Cons p ps)
  obtain vs s1 where r: "forbidden_scan h ps (st(oid p := 0)) = (vs, s1)"
    by (cases "forbidden_scan h ps (st(oid p := 0))")
  from Cons.IH[of "st(oid p := 0)", unfolded r]
  have "s1 x = (if x \<in> oid ` set ps then 0 else (st(oid p := 0)) x)"
    by simp
  then show ?case
    by (simp add: Let_def r)
qed

lemma test_patterns_agree:
  assumes "\<forall>x \<in> A. st x = st' x" and "oid ` set ps \<subseteq> A"
  shows "fst (test_patterns sc ps st) = fst (test_patterns sc ps st') \<and>
         (\<forall>x \<in> A. snd (test_patterns sc ps st) x = snd (test_patterns sc ps st') x)"
  using assms
proof (induction ps arbitrary: st st')
  case Nil
  then show ?case by simp
next
  case (Cons p ps)
  from Cons.prems have same: "st (oid p) = st' (oid p)" by simp
  obtain found li where t: "regexp_test (pattern p) sc (st (oid p)) = (found, li)"
    by (cases "regexp_test (pattern p) sc (st (oid p))")
  obtain vs s1 where r: "test_patterns sc ps (st(oid p := li)) = (vs, s1)"
    by (cases "test_patterns sc ps (st(oid p := li))")
  obtain vs' s1' where r': "test_patterns sc ps (st'(oid p := li)) = (vs', s1')"
    by (cases "test_patterns sc ps (st'(oid p := li))")
  from Cons.prems have "\<forall>x \<in> A. (st(oid p := li)) x = (st'(oid p := li)) x" "oid ` set ps \<subseteq> A"
    by simp_all
  from Cons.IH[OF this, unfolded r r'] have "vs = vs'" "\<forall>x \<in> A. s1 x = s1' x"
    by simp_all
  with t same show ?case
    by (simp add: Let_def r r')
qed

lemma script_blocks_agree:
  assumes "\<forall>x \<in> A. st x = st' x" and "oid ` set ps \<subseteq> A"
  shows "fst (script_blocks bs ps st) = fst (script_blocks bs ps st') \<and>
         (\<forall>x \<in> A. snd (script_blocks bs ps st) x = snd (script_blocks bs ps st') x)"
  using assms(1)
proof (induction bs arbitrary: st st')
  case Nil
  then show ?case by simp
next
  case (Cons b bs)
  obtain m0 cs where b: "b = (m0, cs)" by (cases b)
  obtain v1 st1 where t: "test_patterns (group 1 cs) ps st = (v1, st1)"
    by (cases "test_patterns (group 1 cs) ps st")
  obtain v1' st1' where t': "test_patterns (group 1 cs) ps st' = (v1', st1')"
    by (cases "test_patterns (group 1 cs) ps st'")
  from test_patterns_agree[OF Cons.prems assms(2), of "group 1 cs"] t t'
  have v: "v1 = v1'" and a: "\<forall>x \<in> A. st1 x = st1' x" by simp_all
  obtain v3 st2 where r: "script_blocks bs ps st1 = (v3, st2)"
    by (cases "script_blocks bs ps st1")
  obtain v3' st2' where r': "script_blocks bs ps st1' = (v3', st2')"
    by (cases "script_blocks bs ps st1'")
  from Cons.IH[OF a, unfolded r r'] have "v3 = v3'" "\<forall>x \<in> A. st2 x = st2' x"
    by simp_all
  with v show ?case
    by (simp add: Let_def b t t' r r' del: One_nat_def)
qed

lemma validate_store_indep:
  "fst (validateHtmlContent c cfg st) = fst (validateHtmlContent c cfg st')"
proof -
  let ?ps = "forbiddenPatterns cfg"
  obtain v2 st1 where f: "forbidden_scan c ?ps st = (v2, st1)"
    by (cases "forbidden_scan c ?ps st")
  obtain v2' st1' where f': "forbidden_scan c ?ps st' = (v2', st1')"
    by (cases "forbidden_scan c ?ps st'")
  from forbidden_scan_fst[of c ?ps st st'] f f' have v2: "v2 = v2'" by simp
  have "\<forall>x \<in> oid ` set ?ps. st1 x = st1' x"
    using forbidden_scan_snd[of c ?ps st] forbidden_scan_snd[of c ?ps st'] f f' by simp
  from script_blocks_agree[OF this subset_refl, of "exec_all True scriptRegex c"]
  have e: "fst (script_blocks (exec_all True scriptRegex c) ?ps st1) =
        fst (script_blocks (exec_all True scriptRegex c) ?ps st1')"
    by simp
  obtain v5 st2 where s: "script_blocks (exec_all True scriptRegex c) ?ps st1 = (v5, st2)"
    by (cases "script_blocks (exec_all True scriptRegex c) ?ps st1")
  obtain v5' st2' where s': "script_blocks (exec_all True scriptRegex c) ?ps st1' = (v5', st2')"
    by (cases "script_blocks (exec_all True scriptRegex c) ?ps st1'")
  from e s s' have "v5 = v5'"
    by simp
  then show ?thesis
    by (simp add: validateHtmlContent_def Let_def f f' v2 s s')
qed

text \<open>
  C9. The scanner is deterministic: for every content string and policy, the result of a
  scan is the same whatever \<^verbatim>\<open>lastIndex\<close> values the RegExp objects of the policy carry
  when the call starts; in particular a second call, started in the store that the first
  call left, returns the same result (validity, violations in order, warnings, sanitized
  content).
\<close>

theorem scan_deterministic:
  "fst (validateHtmlContent c cfg (snd (validateHtmlContent c cfg st))) =
     fst (validateHtmlContent c cfg st) \<and>
   fst (validateHtmlContent c cfg st') = fst (validateHtmlContent c cfg st)"
  using validate_store_indep[of c cfg "snd (validateHtmlContent c cfg st)" st]
    validate_store_indep[of c cfg st' st]
  by simp

section \<open>Tag inventory\<close>

subsection \<open>What the tag regular expression matches\<close>

text \<open>A greedy repetition of a character class ends in the states of \<open>star_states\<close>.\<close>

lemma ms_star_cls:
  "ms ic (Star True (Cls neg items)) (s, cs) =
     star_states (\<lambda>c. list_ex (\<lambda>i. in_item ic i c) items \<noteq> neg) s cs"
proof (induction s)
  case Nil
  show ?case by (simp add: ms.simps(6))
next
  case (Cons c t)
  show ?case
    by (subst ms.simps(6)) (simp add: Cons.IH Let_def)
qed

lemma star_states_hd:
  "\<exists>rest. star_states P s cs = (dropWhile P s, cs) # rest"
  by (induction s) auto

lemma star_states_mem:
  "st \<in> set (star_states P s cs) \<Longrightarrow>
     snd st = cs \<and> (\<exists>p. s = p @ fst st \<and> list_all P p)"
proof (induction s)
  case Nil
  then show ?case by simp
next
  case (Cons c t)
  from Cons.prems consider "P c" "st \<in> set (star_states P t cs)" | "st = (c # t, cs)"
    by (auto split: if_splits)
  then show ?case
  proof cases
    case 1
    from Cons.IH[OF 1(2)] obtain p where "snd st = cs" "t = p @ fst st" "list_all P p" by blast
    with 1(1) have "snd st = cs \<and> c # t = (c # p) @ fst st \<and> list_all P (c # p)" by simp
    then show ?thesis by blast
  next
    case 2
    then have "snd st = cs \<and> c # t = [] @ fst st \<and> list_all P []" by simp
    then show ?thesis by blast
  qed
qed

text \<open>At a \<^verbatim>\<open><\<close>, the matches of the tag regular expression: none unless a name
  follows and a \<^verbatim>\<open>>\<close> comes later; otherwise all of them end behind the first
  \<^verbatim>\<open>>\<close>, and the first one has the longest name.\<close>

lemma alnum_not_gt: "is_alnum c \<Longrightarrow> c \<noteq> 0x3E"
  unfolding is_alnum_def is_alpha_def is_lower_def is_upper_def is_digit_def by unat_arith

lemma alnum_not_slash: "is_alnum c \<Longrightarrow> c \<noteq> 0x2F"
  unfolding is_alnum_def is_alpha_def is_lower_def is_upper_def is_digit_def by unat_arith

lemma alnum_not_lt: "is_alnum c \<Longrightarrow> c \<noteq> 0x3C"
  unfolding is_alnum_def is_alpha_def is_lower_def is_upper_def is_digit_def by unat_arith

lemma to_gt_ms:
  "ms False (Seq (Star True nongt) (Chr 0x3E)) (s, cs) =
     (case dropWhile (\<lambda>c. c \<noteq> 0x3E) s of [] \<Rightarrow> [] | g # r \<Rightarrow> [(r, cs)])"
proof -
  have "concat (map (ms False (Chr 0x3E)) (star_states (\<lambda>c. 0x3E \<noteq> c) s cs)) =
     (case dropWhile (\<lambda>c. c \<noteq> 0x3E) s of [] \<Rightarrow> [] | g # r \<Rightarrow> [(r, cs)])"
    by (induction s) (auto simp: canon_def)
  then show ?thesis
    by (simp add: nongt_def ms_star_cls canon_def)
qed

lemma name_ms:
  "ms False (Seq (Alt (Chr 0x2F) Eps) (Seq (Cls False [Rng 0x61 0x7A, Rng 0x41 0x5A])
       (Star True (Cls False [Rng 0x61 0x7A, Rng 0x41 0x5A, Rng 0x30 0x39])))) (t, cs) =
     (case strip_slash t of
        [] \<Rightarrow> []
      | l # v \<Rightarrow> if is_alpha l then star_states is_alnum v cs else [])"
proof -
  have p: "(\<lambda>c :: cu. 97 \<le> c \<and> c \<le> 122 \<or> 65 \<le> c \<and> c \<le> 90 \<or> 48 \<le> c \<and> c \<le> 57) = is_alnum"
    by (auto simp: is_alnum_def is_alpha_def is_lower_def is_upper_def is_digit_def fun_eq_iff)
  have a: "\<And>u. ms False (Seq (Cls False [Rng 0x61 0x7A, Rng 0x41 0x5A])
                (Star True (Cls False [Rng 0x61 0x7A, Rng 0x41 0x5A, Rng 0x30 0x39]))) (u, cs) =
     (case u of [] \<Rightarrow> [] | l # v \<Rightarrow> if is_alpha l then star_states is_alnum v cs else [])"
    by (auto simp: ms_star_cls p is_alpha_def is_lower_def is_upper_def split: list.splits)
  have s: "\<not> is_alpha 0x2F"
    by (simp add: is_alpha_def is_lower_def is_upper_def)
  have "ms False (Seq (Alt (Chr 0x2F) Eps) (Seq (Cls False [Rng 0x61 0x7A, Rng 0x41 0x5A])
       (Star True (Cls False [Rng 0x61 0x7A, Rng 0x41 0x5A, Rng 0x30 0x39])))) (t, cs) =
     concat (map (ms False (Seq (Cls False [Rng 0x61 0x7A, Rng 0x41 0x5A])
       (Star True (Cls False [Rng 0x61 0x7A, Rng 0x41 0x5A, Rng 0x30 0x39]))))
       (ms False (Chr 0x2F) (t, cs) @ [(t, cs)]))"
    by (simp only: ms.simps(1,4,5))
  also have "\<dots> = (case strip_slash t of
        [] \<Rightarrow> []
      | l # v \<Rightarrow> if is_alpha l then star_states is_alnum v cs else [])"
    using s by (cases t) (simp_all add: a strip_slash_def canon_def del: ms.simps(4))
  finally show ?thesis .
qed

lemma concat_same_rest:
  assumes "\<forall>st \<in> set xs. dropWhile Q (fst st) = d"
  shows "concat (map (\<lambda>(s', cs'). case dropWhile Q s' of [] \<Rightarrow> [] | g # r \<Rightarrow> [(r, f s' cs')]) xs) =
     (case d of [] \<Rightarrow> [] | g # r \<Rightarrow> map (\<lambda>(s', cs'). (r, f s' cs')) xs)"
  using assms
proof (induction xs)
  case Nil
  then show ?case by (cases d) simp_all
next
  case (Cons a xs)
  obtain s' cs' where a: "a = (s', cs')" by (cases a)
  from Cons.prems a have h: "dropWhile Q s' = d" by simp
  from Cons.prems have "\<forall>st \<in> set xs. dropWhile Q (fst st) = d" by simp
  from Cons.IH[OF this] show ?case
    by (cases d) (simp_all add: a h del: dropWhile_eq_Nil_conv)
qed

lemma concat_map_wrap:
  "concat (map h (map (\<lambda>(s', cs'). (s', f s' cs')) xs)) =
     concat (map (\<lambda>(s', cs'). h (s', f s' cs')) xs)"
  by (induction xs) auto

lemma dropWhile_skip:
  "list_all P p \<Longrightarrow> (\<And>c. P c \<Longrightarrow> Q c) \<Longrightarrow> dropWhile Q (p @ s) = dropWhile Q s"
  by (induction p) auto

lemma tagRegex_shape:
  "tagRegex = Seq (Chr 0x3C) (Seq (Grp 1 (Seq (Alt (Chr 0x2F) Eps)
       (Seq (Cls False [Rng 0x61 0x7A, Rng 0x41 0x5A])
            (Star True (Cls False [Rng 0x61 0x7A, Rng 0x41 0x5A, Rng 0x30 0x39])))))
     (Seq (Star True nongt) (Chr 0x3E)))"
  by (simp add: tagRegex_def Lit_def js_def Opt_def)

lemma tag_ms:
  "ms False tagRegex (0x3C # t, []) =
     (case strip_slash t of
        [] \<Rightarrow> []
      | l # v \<Rightarrow>
          if is_alpha l
          then (case dropWhile (\<lambda>c. c \<noteq> 0x3E) v of
                  [] \<Rightarrow> []
                | g # r \<Rightarrow> map (\<lambda>(s', cs'). (r, (1, take (length t - length s') t) # cs'))
                            (star_states is_alnum v []))
          else [])"
proof -
  define G where "G = Seq (Alt (Chr 0x2F) Eps)
       (Seq (Cls False [Rng 0x61 0x7A, Rng 0x41 0x5A])
            (Star True (Cls False [Rng 0x61 0x7A, Rng 0x41 0x5A, Rng 0x30 0x39])))"
  define R where "R = Seq (Star True nongt) (Chr 0x3E)"
  define f where "f = (\<lambda>(s' :: jsstring) (cs' :: caps). (1 :: nat, take (length t - length s') t) # cs')"
  have shape: "tagRegex = Seq (Chr 0x3C) (Seq (Grp 1 G) R)"
    unfolding G_def R_def by (rule tagRegex_shape)
  have g: "ms False G (t, []) =
     (case strip_slash t of
        [] \<Rightarrow> []
      | l # v \<Rightarrow> if is_alpha l then star_states is_alnum v [] else [])"
    unfolding G_def by (rule name_ms)
  have r: "\<And>s cs. ms False R (s, cs) =
     (case dropWhile (\<lambda>c. c \<noteq> 0x3E) s of [] \<Rightarrow> [] | g # r \<Rightarrow> [(r, cs)])"
    unfolding R_def by (rule to_gt_ms)
  have "ms False tagRegex (0x3C # t, []) = ms False (Seq (Grp 1 G) R) (t, [])"
    by (simp add: shape canon_def del: One_nat_def)
  also have "\<dots> = concat (map (ms False R) (map (\<lambda>(s', cs'). (s', f s' cs')) (ms False G (t, []))))"
    by (simp only: ms.simps(4,7) f_def)
  also have "\<dots> = concat (map (\<lambda>(s', cs'). ms False R (s', f s' cs')) (ms False G (t, [])))"
    by (rule concat_map_wrap)
  also have "\<dots> = concat (map (\<lambda>(s', cs'). case dropWhile (\<lambda>c. c \<noteq> 0x3E) s' of [] \<Rightarrow> []
                         | g # r \<Rightarrow> [(r, f s' cs')]) (ms False G (t, [])))"
    by (simp only: r)
  finally have unfold: "ms False tagRegex (0x3C # t, []) =
     concat (map (\<lambda>(s', cs'). case dropWhile (\<lambda>c. c \<noteq> 0x3E) s' of [] \<Rightarrow> []
                         | g # r \<Rightarrow> [(r, f s' cs')]) (ms False G (t, [])))" .
  show ?thesis
  proof (cases "strip_slash t")
    case Nil
    then show ?thesis by (simp add: unfold g)
  next
    case (Cons l v)
    show ?thesis
    proof (cases "is_alpha l")
      case False
      with Cons show ?thesis by (simp add: unfold g)
    next
      case True
      have same: "\<forall>st \<in> set (star_states is_alnum v []).
          dropWhile (\<lambda>c. c \<noteq> 0x3E) (fst st) = dropWhile (\<lambda>c. c \<noteq> 0x3E) v"
      proof
        fix st assume "st \<in> set (star_states is_alnum v [])"
        from star_states_mem[OF this] obtain p where "v = p @ fst st" "list_all is_alnum p"
          by blast
        with dropWhile_skip[of is_alnum p "\<lambda>c. c \<noteq> 0x3E" "fst st"] alnum_not_gt
        show "dropWhile (\<lambda>c. c \<noteq> 0x3E) (fst st) = dropWhile (\<lambda>c. c \<noteq> 0x3E) v"
          by simp
      qed
      from Cons True have "ms False tagRegex (0x3C # t, []) =
          concat (map (\<lambda>(s', cs'). case dropWhile (\<lambda>c. c \<noteq> 0x3E) s' of [] \<Rightarrow> []
                         | g # r \<Rightarrow> [(r, f s' cs')]) (star_states is_alnum v []))"
        by (simp add: unfold g)
      also have "\<dots> = (case dropWhile (\<lambda>c. c \<noteq> 0x3E) v of [] \<Rightarrow> []
          | g # r \<Rightarrow> map (\<lambda>(s', cs'). (r, f s' cs')) (star_states is_alnum v []))"
        by (rule concat_same_rest[OF same])
      finally show ?thesis using Cons True unfolding f_def by simp
    qed
  qed
qed

subsection \<open>The loop of the source finds the tag occurrences of the markup\<close>

lemma tag_occ_pending:
  "tag_occ (Some name) t =
     (case dropWhile (\<lambda>c. c \<noteq> 0x3E) t of [] \<Rightarrow> [] | g # r \<Rightarrow> name # tag_occ None r)"
  by (induction t) simp_all

lemma tag_occ_no_gt: "0x3E \<notin> set t \<Longrightarrow> tag_occ st t = []"
proof (induction t arbitrary: st)
  case Nil
  then show ?case by simp
next
  case (Cons c t)
  then show ?case by (cases st) simp_all
qed

lemma tag_ms_other: "c \<noteq> 0x3C \<Longrightarrow> ms False tagRegex (c # t, []) = []"
proof (rule ccontr)
  assume c: "c \<noteq> 0x3C" and "ms False tagRegex (c # t, []) \<noteq> []"
  then obtain st' where "st' \<in> set (ms False tagRegex (c # t, []))"
    by (cases "ms False tagRegex (c # t, [])") auto
  moreover have "lead tagRegex = Some 0x3C"
    by (simp add: tagRegex_shape)
  ultimately have "canon False 0x3C = canon False c"
    using ms_lead[of tagRegex "0x3C" st' False "c # t" "[]"] by simp
  with c show False by (simp add: canon_def)
qed

lemma alpha_alnum: "is_alpha l \<Longrightarrow> is_alnum l"
  by (simp add: is_alnum_def)

lemma lower_not_slash: "is_alnum c \<Longrightarrow> to_lower c \<noteq> 0x2F"
  unfolding is_alnum_def is_alpha_def is_lower_def is_upper_def is_digit_def to_lower_def
  by (simp split: if_splits) unat_arith

lemma lower_slash: "to_lower 0x2F = 0x2F"
  by (simp add: to_lower_def is_upper_def)

lemma strip_slash_cases:
  assumes "strip_slash t = l # v" and "is_alpha l"
  shows "t = 0x2F # l # v \<or> t = l # v"
  using assms by (cases t) (auto simp: strip_slash_def split: if_splits)

text \<open>The name that the loop derives from group 1 of a match.\<close>

lemma group_name:
  assumes "strip_slash t = l # v" and "is_alpha l"
  shows "remove1 0x2F (toLowerCase (take (length t - length (dropWhile is_alnum v)) t)) =
     toLowerCase (l # takeWhile is_alnum v)"
proof -
  have len: "length v - length (dropWhile is_alnum v) = length (takeWhile is_alnum v)"
    by (metis add_diff_cancel_right' length_append takeWhile_dropWhile_id)
  have tk: "take (length (takeWhile is_alnum v)) v = takeWhile is_alnum v"
    by (metis append_eq_conv_conj takeWhile_dropWhile_id)
  have le: "length (dropWhile is_alnum v) \<le> length v"
    by (rule length_dropWhile_le)
  have noslash: "0x2F \<notin> set (toLowerCase (l # takeWhile is_alnum v))"
  proof
    assume "0x2F \<in> set (toLowerCase (l # takeWhile is_alnum v))"
    then have "0x2F \<in> to_lower ` set (l # takeWhile is_alnum v)"
      by (simp only: toLowerCase_def set_map)
    then obtain c where "c \<in> set (l # takeWhile is_alnum v)" "to_lower c = 0x2F"
      by (metis imageE)
    moreover from this(1) assms(2) have "is_alnum c"
      by (auto simp: alpha_alnum dest: set_takeWhileD)
    ultimately show False using lower_not_slash by blast
  qed
  from strip_slash_cases[OF assms] show ?thesis
  proof
    assume t: "t = 0x2F # l # v"
    with le have "take (length t - length (dropWhile is_alnum v)) t =
        0x2F # l # take (length v - length (dropWhile is_alnum v)) v"
      by (simp add: Suc_diff_le)
    then have "take (length t - length (dropWhile is_alnum v)) t =
        0x2F # l # takeWhile is_alnum v"
      by (simp add: len tk)
    then show ?thesis
      by (simp add: toLowerCase_def lower_slash)
  next
    assume t: "t = l # v"
    with le have "take (length t - length (dropWhile is_alnum v)) t =
        l # take (length v - length (dropWhile is_alnum v)) v"
      by (simp add: Suc_diff_le)
    then have "take (length t - length (dropWhile is_alnum v)) t = l # takeWhile is_alnum v"
      by (simp add: len tk)
    with noslash show ?thesis
      by (simp add: remove1_idem)
  qed
qed

lemma to_gt_strip:
  assumes "strip_slash t = l # v" and "is_alpha l"
  shows "dropWhile (\<lambda>c. c \<noteq> 0x3E) t = dropWhile (\<lambda>c. c \<noteq> 0x3E) v"
  using strip_slash_cases[OF assms] alnum_not_gt[OF alpha_alnum[OF assms(2)]] by auto

lemma dropWhile_shorter: "dropWhile P v = g # r \<Longrightarrow> length r < length v"
  by (metis length_dropWhile_le length_Cons less_eq_Suc_le)

lemma strip_slash_length: "length (strip_slash t) \<le> length t"
  by (cases t) (simp_all add: strip_slash_def)

lemma tag_names_spec: "tag_names s = spec_tag_occurrences s"
proof -
  let ?nm = "\<lambda>(m :: jsstring, cs). remove1 0x2F (toLowerCase (group 1 cs))"
  have "map ?nm (exec_all False tagRegex s) = tag_occ None s"
  proof (induction "length s" arbitrary: s rule: less_induct)
    case less
    show ?case
    proof (cases s)
      case Nil
      then show ?thesis by simp
    next
      case (Cons c t)
      have iht: "map ?nm (exec_all False tagRegex t) = tag_occ None t"
        using less[of t] Cons by simp
      show ?thesis
      proof (cases "c = 0x3C")
        case False
        with tag_ms_other[OF False, of t] Cons iht show ?thesis by simp
      next
        case True
        note lt = True
        show ?thesis
        proof (cases "strip_slash t")
          case Nil
          then have "ms False tagRegex (0x3C # t, []) = []" "tag_start t = None"
            by (simp_all add: tag_ms tag_start_def)
          with Cons lt iht show ?thesis by simp
        next
          case (Cons l v)
          note ss = Cons
          show ?thesis
          proof (cases "is_alpha l")
            case False
            with ss have "ms False tagRegex (0x3C # t, []) = []" "tag_start t = None"
              by (simp_all add: tag_ms tag_start_def)
            with \<open>s = c # t\<close> lt iht show ?thesis by simp
          next
            case True
            from ss True have ts: "tag_start t = Some (toLowerCase (l # takeWhile is_alnum v))"
              by (simp add: tag_start_def)
            show ?thesis
            proof (cases "dropWhile (\<lambda>c. c \<noteq> 0x3E) v")
              case Nil
              have m: "ms False tagRegex (0x3C # t, []) = []"
                by (simp add: tag_ms ss True Nil)
              from Nil to_gt_strip[OF ss True] have "dropWhile (\<lambda>c. c \<noteq> 0x3E) t = []"
                by simp
              then have "0x3E \<notin> set t"
                by auto
              then have "tag_occ None t = []" "tag_occ (tag_start t) t = []"
                by (simp_all add: tag_occ_no_gt)
              with m \<open>s = c # t\<close> lt iht show ?thesis by simp
            next
              case (Cons g r)
              obtain rest where hd: "star_states is_alnum v [] = (dropWhile is_alnum v, []) # rest"
                using star_states_hd[of is_alnum v "[]"] by blast
              from ss True Cons hd have m: "ms False tagRegex (0x3C # t, []) =
                  (r, [(1, take (length t - length (dropWhile is_alnum v)) t)]) #
                  map (\<lambda>(s', cs'). (r, (1, take (length t - length s') t) # cs')) rest"
                by (simp add: tag_ms del: One_nat_def)
              have "length r < length v"
                using Cons by (rule dropWhile_shorter)
              moreover have "length v < length s"
                using strip_slash_length[of t] ss \<open>s = c # t\<close> by simp
              ultimately have ihr: "map ?nm (exec_all False tagRegex r) = tag_occ None r"
                using less[of r] by simp
              have len: "length r < length (0x3C # t)"
                using \<open>length r < length v\<close> \<open>length v < length s\<close> \<open>s = c # t\<close> by simp
              have "map ?nm (exec_all False tagRegex (0x3C # t)) =
                  remove1 0x2F (toLowerCase (take (length t - length (dropWhile is_alnum v)) t)) #
                  tag_occ None r"
                using len ihr by (simp add: m group_def del: One_nat_def)
              also have "\<dots> = toLowerCase (l # takeWhile is_alnum v) # tag_occ None r"
                by (simp only: group_name[OF ss True])
              also have "\<dots> = tag_occ None (0x3C # t)"
                using ts Cons to_gt_strip[OF ss True] by (simp add: tag_occ_pending)
              finally show ?thesis
                using \<open>s = c # t\<close> lt by simp
            qed
          qed
        qed
      qed
    qed
  qed
  then show ?thesis
    by (simp add: tag_names_def spec_tag_occurrences_def)
qed

subsection \<open>Laws of tag occurrences\<close>

text \<open>Text without \<^verbatim>\<open><\<close> holds no occurrence; a tag, opening or closing, with or without
  attribute text, is one occurrence of its name, and the scan goes on behind it.\<close>

lemma tag_occ_text: "0x3C \<notin> set p \<Longrightarrow> tag_occ None (p @ s) = tag_occ None s"
  by (induction p) simp_all

lemma takeWhile_name:
  assumes "list_all is_alnum v" and "\<not> is_alnum x"
  shows "takeWhile is_alnum (v @ x # s) = v"
  using assms by (induction v) simp_all

lemma tag_occ_tag:
  assumes "is_alpha l" and "list_all is_alnum v" and "0x3E \<notin> set attrs"
    and "attrs = [] \<or> \<not> is_alnum (hd attrs)"
  shows "tag_occ None (0x3C # l # v @ attrs @ 0x3E # rest) = toLowerCase (l # v) # tag_occ None rest"
    and "tag_occ None (0x3C # 0x2F # l # v @ attrs @ 0x3E # rest) =
           toLowerCase (l # v) # tag_occ None rest"
proof -
  have gt: "\<not> is_alnum 0x3E"
    using alnum_not_gt by blast
  have tw: "takeWhile is_alnum (v @ attrs @ 0x3E # rest) = v"
  proof (cases attrs)
    case Nil
    with takeWhile_name[OF assms(2) gt] show ?thesis by simp
  next
    case (Cons a as)
    with assms(4) have "\<not> is_alnum a" by simp
    from takeWhile_name[OF assms(2) this, of "as @ 0x3E # rest"] Cons show ?thesis by simp
  qed
  have l: "l \<noteq> 0x2F" "l \<noteq> 0x3E"
    using alnum_not_slash[OF alpha_alnum[OF assms(1)]] alnum_not_gt[OF alpha_alnum[OF assms(1)]]
    by simp_all
  have v: "list_all (\<lambda>c. c \<noteq> 0x3E) v"
    using assms(2) alnum_not_gt unfolding list_all_iff by blast
  have a: "list_all (\<lambda>c. c \<noteq> 0x3E) attrs"
    using assms(3) unfolding list_all_iff by blast
  have dw: "dropWhile (\<lambda>c. c \<noteq> 0x3E) (v @ attrs @ 0x3E # rest) = 0x3E # rest"
    using v a by (simp add: list_all_iff)
  have s1: "tag_start (l # v @ attrs @ 0x3E # rest) = Some (toLowerCase (l # v))"
    using assms(1) l by (simp add: tag_start_def strip_slash_def tw)
  have s2: "tag_start (0x2F # l # v @ attrs @ 0x3E # rest) = Some (toLowerCase (l # v))"
    using assms(1) by (simp add: tag_start_def strip_slash_def tw)
  show "tag_occ None (0x3C # l # v @ attrs @ 0x3E # rest) = toLowerCase (l # v) # tag_occ None rest"
    using l by (simp add: s1 tag_occ_pending dw)
  show "tag_occ None (0x3C # 0x2F # l # v @ attrs @ 0x3E # rest) =
           toLowerCase (l # v) # tag_occ None rest"
    using l by (simp add: s2 tag_occ_pending dw)
qed

text \<open>What lies inside a tag is not read as a tag: here the closing tag is part of the
  attribute text of \<^verbatim>\<open>a\<close>.\<close>

lemma tag_inside_tag:
  \<open>tag_names (js ''<a </b>'') = [js ''a''] \<and> spec_tag_occurrences (js ''<a </b>'') = [js ''a'']\<close>
  unfolding tag_names_spec
  by (simp add: spec_tag_occurrences_def tag_start_def strip_slash_def js_def toLowerCase_def
      to_lower_def is_alpha_def is_alnum_def is_lower_def is_upper_def is_digit_def)

text \<open>
  C10. The tag inventory of the source finds exactly the tag occurrences of the markup, and
  the warnings are one \<open>SUSPICIOUS_TAG\<close> per occurrence whose name is not among the
  allowed tags of the policy, in order and without removing repetitions. An opening tag
  \<^verbatim>\<open><name ...>\<close> and a closing tag \<^verbatim>\<open></name ...>\<close> each count as one occurrence of
  \<open>name\<close> (in lower case), whatever follows, and text without \<^verbatim>\<open><\<close> counts as none;
  so \<^verbatim>\<open><object data="a.swf"></object>\<close> gets two warnings for \<open>object\<close> under the
  default policy.
\<close>

theorem warnings_per_occurrence:
  \<open>tag_names c = spec_tag_occurrences c \<and>
   warnings (fst (validateHtmlContent c cfg st)) =
     map SUSPICIOUS_TAG (filter (\<lambda>t. t \<notin> set (allowedTags cfg)) (spec_tag_occurrences c)) \<and>
   (0x3C \<notin> set p \<longrightarrow> spec_tag_occurrences (p @ rest) = spec_tag_occurrences rest) \<and>
   (is_alpha l \<and> list_all is_alnum v \<and> 0x3E \<notin> set attrs \<and>
    (attrs = [] \<or> \<not> is_alnum (hd attrs)) \<longrightarrow>
      spec_tag_occurrences (js ''<'' @ l # v @ attrs @ js ''>'' @ rest) =
        toLowerCase (l # v) # spec_tag_occurrences rest \<and>
      spec_tag_occurrences (js ''</'' @ l # v @ attrs @ js ''>'' @ rest) =
        toLowerCase (l # v) # spec_tag_occurrences rest) \<and>
   spec_tag_occurrences (js ''<object data="a.swf"></object>'') = [js ''object'', js ''object''] \<and>
   warnings (fst (validateHtmlContent (js ''<object data="a.swf"></object>'')
      DEFAULT_SECURITY_CONFIG st)) = [SUSPICIOUS_TAG (js ''object''), SUSPICIOUS_TAG (js ''object'')]\<close>
proof -
  have g: "\<And>c cfg. warnings (fst (validateHtmlContent c cfg st)) =
     map SUSPICIOUS_TAG (filter (\<lambda>t. t \<notin> set (allowedTags cfg)) (spec_tag_occurrences c))"
    by (simp add: validateHtmlContent_def Let_def tag_scan_def concat_map_if tag_names_spec
        split: prod.splits)
  have t: "0x3C \<notin> set p \<longrightarrow> spec_tag_occurrences (p @ rest) = spec_tag_occurrences rest"
    by (simp add: spec_tag_occurrences_def tag_occ_text)
  have j: "js ''<'' = [0x3C]" "js ''</'' = [0x3C, 0x2F]" "js ''>'' = [0x3E]"
    by (simp_all add: js_def)
  have o: "is_alpha l \<and> list_all is_alnum v \<and> 0x3E \<notin> set attrs \<and>
    (attrs = [] \<or> \<not> is_alnum (hd attrs)) \<longrightarrow>
      spec_tag_occurrences (js ''<'' @ l # v @ attrs @ js ''>'' @ rest) =
        toLowerCase (l # v) # spec_tag_occurrences rest \<and>
      spec_tag_occurrences (js ''</'' @ l # v @ attrs @ js ''>'' @ rest) =
        toLowerCase (l # v) # spec_tag_occurrences rest"
    using tag_occ_tag[of l v attrs rest] by (simp add: spec_tag_occurrences_def j)
  have e: \<open>spec_tag_occurrences (js ''<object data="a.swf"></object>'') =
      [js ''object'', js ''object'']\<close>
    by (simp add: spec_tag_occurrences_def tag_start_def strip_slash_def js_def toLowerCase_def
        to_lower_def is_alpha_def is_alnum_def is_lower_def is_upper_def is_digit_def)
  have a: \<open>js ''object'' \<notin> set (allowedTags DEFAULT_SECURITY_CONFIG)\<close>
    by (simp add: DEFAULT_SECURITY_CONFIG_def js_def)
  have w: \<open>warnings (fst (validateHtmlContent (js ''<object data="a.swf"></object>'')
      DEFAULT_SECURITY_CONFIG st)) = [SUSPICIOUS_TAG (js ''object''), SUSPICIOUS_TAG (js ''object'')]\<close>
    unfolding g e using a by simp
  from tag_names_spec[of c] g[of c cfg] t o e w show ?thesis
    by blast
qed

text \<open>The laws at the tag \<open>object\<close>, without attribute text and with nothing behind it, and
  at a text without \<^verbatim>\<open><\<close>.\<close>

theorem warnings_per_occurrence_witness:
  \<open>0x3C \<notin> set (js ''text'') \<and>
   spec_tag_occurrences (js ''text'' @ js ''</object>'') = spec_tag_occurrences (js ''</object>'') \<and>
   is_alpha 0x6F \<and> list_all is_alnum (js ''bject'') \<and> 0x3E \<notin> set ([] :: jsstring) \<and>
   spec_tag_occurrences (js ''<object>'') = [js ''object''] \<and>
   spec_tag_occurrences (js ''</object>'') = [js ''object'']\<close>
proof -
  have 1: \<open>0x3C \<notin> set (js ''text'')\<close>
    by (simp add: js_def)
  have 2: \<open>is_alpha 0x6F \<and> list_all is_alnum (js ''bject'') \<and> 0x3E \<notin> set ([] :: jsstring) \<and>
      (([] :: jsstring) = [] \<or> \<not> is_alnum (hd []))\<close>
    by (simp add: js_def is_alpha_def is_alnum_def is_lower_def is_upper_def is_digit_def)
  have 3: \<open>js ''<'' @ 0x6F # js ''bject'' @ [] @ js ''>'' @ [] = js ''<object>''\<close>
    \<open>js ''</'' @ 0x6F # js ''bject'' @ [] @ js ''>'' @ [] = js ''</object>''\<close>
    \<open>toLowerCase (0x6F # js ''bject'') = js ''object''\<close>
    \<open>spec_tag_occurrences [] = []\<close>
    by (simp_all add: js_def toLowerCase_def to_lower_def is_upper_def spec_tag_occurrences_def)
  from warnings_per_occurrence[where c = "[]" and cfg = DEFAULT_SECURITY_CONFIG
      and st = fresh_store and p = "js ''text''" and rest = "js ''</object>''" and l = "0x6F"
      and v = "js ''bject''" and attrs = "[]"]
  have a: \<open>spec_tag_occurrences (js ''text'' @ js ''</object>'') =
      spec_tag_occurrences (js ''</object>'')\<close>
    using 1 by blast
  from warnings_per_occurrence[where c = "[]" and cfg = DEFAULT_SECURITY_CONFIG
      and st = fresh_store and p = "[]" and rest = "[]" and l = "0x6F"
      and v = "js ''bject''" and attrs = "[]"] 2
  have b: \<open>spec_tag_occurrences (js ''<'' @ 0x6F # js ''bject'' @ [] @ js ''>'' @ []) =
        toLowerCase (0x6F # js ''bject'') # spec_tag_occurrences [] \<and>
      spec_tag_occurrences (js ''</'' @ 0x6F # js ''bject'' @ [] @ js ''>'' @ []) =
        toLowerCase (0x6F # js ''bject'') # spec_tag_occurrences []\<close>
    by blast
  from 1 2 a b[unfolded 3] show ?thesis
    by blast
qed

section \<open>Scenarios of the specification\<close>

text \<open>Scenarios A, B and C: one script block with \<^verbatim>\<open>fetch\<close>, one event handler attribute,
  one double-quoted \<^verbatim>\<open>javascript:\<close> link.\<close>

lemma scenario_A:
  \<open>fst (validateHtmlContent (js ''<script>fetch('/api/admin')</script>'')
      DEFAULT_SECURITY_CONFIG fresh_store) =
   \<lparr>isValid = False,
    violations = [FORBIDDEN_PATTERN (''fetch'' @ [BS] @ ''s*'' @ [BS] @ ''('') [js ''fetch(''],
                  MALICIOUS_SCRIPT (''fetch'' @ [BS] @ ''s*'' @ [BS] @ ''('')],
    sanitizedContent = None, warnings = []\<rparr>\<close>
  by (simp add: eval_defs)

lemma scenario_B:
  \<open>fst (validateHtmlContent (js ''<button onclick="alert(1)">x</button>'')
      DEFAULT_SECURITY_CONFIG fresh_store) =
   \<lparr>isValid = False, violations = [DANGEROUS_ATTRIBUTE (js ''onclick'')],
    sanitizedContent = None, warnings = []\<rparr>\<close>
  by (simp add: eval_defs)

lemma scenario_C:
  \<open>fst (validateHtmlContent (js ''<a href="javascript:alert(1)">x</a>'')
      DEFAULT_SECURITY_CONFIG fresh_store) =
   \<lparr>isValid = False, violations = [JAVASCRIPT_PROTOCOL (js ''href'')],
    sanitizedContent = None, warnings = []\<rparr>\<close>
  by (simp add: eval_defs)

section \<open>Inputs on which the code misses a finding\<close>

text \<open>The three scans below, started with every \<^verbatim>\<open>lastIndex\<close> at 0.\<close>

lemma two_fetch_blocks_fresh:
  \<open>fst (validateHtmlContent (js ''<script>fetch(1)</script><script>fetch(2)</script>'')
      DEFAULT_SECURITY_CONFIG fresh_store) =
   \<lparr>isValid = False,
    violations = [FORBIDDEN_PATTERN (''fetch'' @ [BS] @ ''s*'' @ [BS] @ ''('')
                    [js ''fetch('', js ''fetch(''],
                  MALICIOUS_SCRIPT (''fetch'' @ [BS] @ ''s*'' @ [BS] @ ''('')],
    sanitizedContent = None, warnings = []\<rparr>\<close>
  by (simp add: eval_defs)

lemma single_quoted_fresh:
  \<open>fst (validateHtmlContent (js ''<a href='javascript:alert(1)'>x</a>'')
      DEFAULT_SECURITY_CONFIG fresh_store) =
   \<lparr>isValid = True, violations = [],
    sanitizedContent = Some (js ''<a href='javascript:alert(1)'>x</a>''), warnings = []\<rparr>\<close>
  by (simp add: eval_defs)

lemma handler_then_class_fresh:
  \<open>fst (validateHtmlContent (js ''<button onclick="alert(1)" class="x">x</button>'')
      DEFAULT_SECURITY_CONFIG fresh_store) =
   \<lparr>isValid = True, violations = [],
    sanitizedContent = Some (js ''<button onclick="alert(1)" class="x">x</button>''),
    warnings = []\<rparr>\<close>
  by (simp add: eval_defs)

text \<open>
  C2. Two script blocks that both call \<^verbatim>\<open>fetch(\<close>. The scanner finds both blocks, the
  pattern \<^verbatim>\<open>fetch\s*\(\<close> matches the inner text of the second one, and the whole-document
  pass reports both matches; but the violations hold a single \<open>MALICIOUS_SCRIPT\<close> entry,
  whatever the \<^verbatim>\<open>lastIndex\<close> values at the start of the call: \<^verbatim>\<open>test\<close> on the first
  block leaves \<^verbatim>\<open>lastIndex\<close> at 6, and on the second block the search starts there,
  behind the match.
\<close>

theorem second_script_block_not_reported:
  \<open>map (\<lambda>(m, cs). group 1 cs)
      (exec_all True scriptRegex (js ''<script>fetch(1)</script><script>fetch(2)</script>'')) =
     [js ''fetch(1)'', js ''fetch(2)''] \<and>
   match_all True (Seqs [Lit ''fetch'', sp_star, Lit ''('']) (js ''fetch(2)'') = [js ''fetch(''] \<and>
   regexp_test (Seqs [Lit ''fetch'', sp_star, Lit ''('']) (js ''fetch(1)'') 0 = (True, 6) \<and>
   regexp_test (Seqs [Lit ''fetch'', sp_star, Lit ''('']) (js ''fetch(2)'') 6 = (False, 0) \<and>
   fst (validateHtmlContent (js ''<script>fetch(1)</script><script>fetch(2)</script>'')
      DEFAULT_SECURITY_CONFIG st) =
   \<lparr>isValid = False,
    violations = [FORBIDDEN_PATTERN (''fetch'' @ [BS] @ ''s*'' @ [BS] @ ''('')
                    [js ''fetch('', js ''fetch(''],
                  MALICIOUS_SCRIPT (''fetch'' @ [BS] @ ''s*'' @ [BS] @ ''('')],
    sanitizedContent = None, warnings = []\<rparr>\<close>
proof -
  have 1: \<open>map (\<lambda>(m, cs). group 1 cs)
      (exec_all True scriptRegex (js ''<script>fetch(1)</script><script>fetch(2)</script>'')) =
     [js ''fetch(1)'', js ''fetch(2)'']\<close>
    by (simp add: eval_defs)
  have 2: \<open>match_all True (Seqs [Lit ''fetch'', sp_star, Lit ''('']) (js ''fetch(2)'') =
     [js ''fetch('']\<close>
    by (simp add: eval_defs)
  have 3: \<open>regexp_test (Seqs [Lit ''fetch'', sp_star, Lit ''('']) (js ''fetch(1)'') 0 = (True, 6)\<close>
    by (simp add: eval_defs)
  have 4: \<open>regexp_test (Seqs [Lit ''fetch'', sp_star, Lit ''('']) (js ''fetch(2)'') 6 = (False, 0)\<close>
    by (simp add: eval_defs)
  from 1 2 3 4 two_fetch_blocks_fresh show ?thesis
    unfolding validate_store_indep[of _ _ st fresh_store] by blast
qed

text \<open>
  C3. The sanitizer removes the inner \<^verbatim>\<open>javascript:\<close> of
  \<^verbatim>\<open>javajavascript:script:\<close> and leaves the outer parts joined to a new
  \<^verbatim>\<open>javascript:\<close>; and it leaves an event handler attribute with an unquoted value as
  it is.
\<close>

theorem sanitizer_output_unsafe:
  \<open>sanitizeHtmlContent (js ''<a href="javajavascript:script:alert(1)">x</a>'')
      DEFAULT_SECURITY_CONFIG = js ''<a href="javascript:alert(1)">x</a>'' \<and>
   includesStr (sanitizeHtmlContent (js ''<a href="javajavascript:script:alert(1)">x</a>'')
      DEFAULT_SECURITY_CONFIG) (js ''javascript:'') \<and>
   sanitizeHtmlContent (js ''<img src=x onerror=alert(1)>'') DEFAULT_SECURITY_CONFIG =
     js ''<img src=x onerror=alert(1)>''\<close>
  by (simp add: eval_defs)

text \<open>
  C4. A link whose \<^verbatim>\<open>javascript:\<close> value is delimited by single quotes passes the scan:
  the check looks for the attribute name followed by \<^verbatim>\<open>="javascript:\<close> only.
\<close>

theorem single_quoted_javascript_not_reported:
  \<open>fst (validateHtmlContent (js ''<a href='javascript:alert(1)'>x</a>'')
      DEFAULT_SECURITY_CONFIG st) =
   \<lparr>isValid = True, violations = [],
    sanitizedContent = Some (js ''<a href='javascript:alert(1)'>x</a>''), warnings = []\<rparr>\<close>
  using single_quoted_fresh
  unfolding validate_store_indep[of _ _ st fresh_store] .

text \<open>
  C5. An event handler attribute that is followed by another attribute in the same tag passes
  the scan: \<^verbatim>\<open>[^>]+\<close> is greedy, so each tag yields its last attribute only, here
  \<^verbatim>\<open>class\<close>.
\<close>

theorem handler_before_other_attribute_not_reported:
  \<open>map (\<lambda>(m, cs). group 1 cs)
      (exec_all False attrRegex (js ''<button onclick="alert(1)" class="x">x</button>'')) =
     [js ''class''] \<and>
   fst (validateHtmlContent (js ''<button onclick="alert(1)" class="x">x</button>'')
      DEFAULT_SECURITY_CONFIG st) =
   \<lparr>isValid = True, violations = [],
    sanitizedContent = Some (js ''<button onclick="alert(1)" class="x">x</button>''),
    warnings = []\<rparr>\<close>
proof -
  have \<open>map (\<lambda>(m, cs). group 1 cs)
      (exec_all False attrRegex (js ''<button onclick="alert(1)" class="x">x</button>'')) =
     [js ''class'']\<close>
    by (simp add: eval_defs)
  with handler_then_class_fresh show ?thesis
    unfolding validate_store_indep[of _ _ st fresh_store] by blast
qed

end
